theory Spec2Isabelle
  imports Main "HOL-Library.Word" "HOL-Library.Sublist" "HOL-Library.AList"
begin

section \<open>Strings and values of the host language\<close>

text \<open>
  A JavaScript string is a sequence of 16-bit code units. \<open>js\<close> embeds a literal whose
  characters are below 256 (each character becomes the code unit of the same number).
\<close>

type_synonym jsstring = "16 word list"

definition js :: "string \<Rightarrow> jsstring" where
  "js s = map of_char s"

text \<open>The two errors the ECMAScript primitives used by \<open>src/index.ts\<close> can throw.\<close>

datatype error = URIError | TypeError

text \<open>
  \<open>QueryObject = Record<string, any>\<close>: the values of type \<open>any\<close>.
  \<^item> \<open>Num t\<close> is a number, carried as the text \<open>t\<close> that \<open>Number::toString\<close> gives for it
    (the program never computes with numbers, it only converts them to text);
  \<^item> \<open>Arr xs\<close> is a plain array with elements \<open>xs\<close>;
  \<^item> \<open>Obj ps r\<close> is any other object or function: \<open>ps\<close> are its own enumerable
    string-keyed data properties in \<open>Object.keys\<close> order, \<open>r\<close> is what converting it
    to a string yields (\<open>"[object Object]"\<close> for an object literal without a \<open>toString\<close>
    of its own; a thrown error where the conversion throws);
  \<^item> \<open>Symbol\<close> is a symbol value, which cannot be converted to a string.
  Values are trees: a callback is taken to return a fresh value at each call.
\<close>

datatype jsval =
    Undefined
  | Null
  | Bool bool
  | Num jsstring
  | Str jsstring
  | Symbol
  | Arr "jsval list"
  | Obj "(jsstring \<times> jsval) list" "error + jsstring"

fun isArray :: "jsval \<Rightarrow> bool" where
  "isArray (Arr xs) = True"
| "isArray v = False"

fun elems :: "jsval \<Rightarrow> jsval list" where
  "elems (Arr xs) = xs"
| "elems v = []"

text \<open>\<open>Array.prototype.join\<close> on strings.\<close>

fun join :: "jsstring \<Rightarrow> jsstring list \<Rightarrow> jsstring" where
  "join sep [] = []"
| "join sep [x] = x"
| "join sep (x # y # ys) = x @ sep @ join sep (y # ys)"

text \<open>
  \<open>ToString\<close> (ECMA-262, 7.1.17). An array converts through \<open>Array.prototype.join\<close>
  with \<open>","\<close>, where \<open>undefined\<close> and \<open>null\<close> elements give the empty string.
\<close>

fun ToString :: "jsval \<Rightarrow> error + jsstring"
  and ToStrings :: "jsval list \<Rightarrow> error + jsstring list" where
  "ToString Undefined = Inr (js ''undefined'')"
| "ToString Null = Inr (js ''null'')"
| "ToString (Bool b) = Inr (if b then js ''true'' else js ''false'')"
| "ToString (Num t) = Inr t"
| "ToString (Str s) = Inr s"
| "ToString Symbol = Inl TypeError"
| "ToString (Arr xs) =
     (case ToStrings xs of Inl e \<Rightarrow> Inl e | Inr ss \<Rightarrow> Inr (join (js '','') ss))"
| "ToString (Obj ps r) = r"
| "ToStrings [] = Inr []"
| "ToStrings (x # xs) =
     (case (if x = Undefined \<or> x = Null then Inr [] else ToString x) of
        Inl e \<Rightarrow> Inl e
      | Inr s \<Rightarrow> (case ToStrings xs of Inl e \<Rightarrow> Inl e | Inr ss \<Rightarrow> Inr (s # ss)))"

section \<open>Percent-encoding: \<open>encodeURIComponent\<close> and \<open>decodeURIComponent\<close>\<close>

text \<open>
  The unreserved set of \<open>encodeURIComponent\<close> (ECMA-262, 19.2.6): the letters, the
  decimal digits and the marks \<open>- _ . ! ~ * ' ( )\<close>.
\<close>

definition uriUnreserved :: "16 word \<Rightarrow> bool" where
  "uriUnreserved c =
     (let n = unat c in
        (0x41 \<le> n \<and> n \<le> 0x5A) \<or> (0x61 \<le> n \<and> n \<le> 0x7A) \<or> (0x30 \<le> n \<and> n \<le> 0x39)
        \<or> n = 0x2D \<or> n = 0x5F \<or> n = 0x2E \<or> n = 0x21 \<or> n = 0x7E
        \<or> n = 0x2A \<or> n = 0x27 \<or> n = 0x28 \<or> n = 0x29)"

definition is_lead :: "16 word \<Rightarrow> bool" where
  "is_lead c = (0xD800 \<le> unat c \<and> unat c \<le> 0xDBFF)"

definition is_trail :: "16 word \<Rightarrow> bool" where
  "is_trail c = (0xDC00 \<le> unat c \<and> unat c \<le> 0xDFFF)"

text \<open>The code point of a surrogate pair (\<open>UTF16SurrogatePairToCodePoint\<close>).\<close>

definition pair_code_point :: "16 word \<Rightarrow> 16 word \<Rightarrow> nat" where
  "pair_code_point hi lo = (unat hi - 0xD800) * 0x400 + (unat lo - 0xDC00) + 0x10000"

text \<open>The UTF-8 octets of a code point.\<close>

definition utf8_octets :: "nat \<Rightarrow> nat list" where
  "utf8_octets cp =
     (if cp < 0x80 then [cp]
      else if cp < 0x800 then [0xC0 + cp div 0x40, 0x80 + cp mod 0x40]
      else if cp < 0x10000 then
        [0xE0 + cp div 0x1000, 0x80 + cp div 0x40 mod 0x40, 0x80 + cp mod 0x40]
      else
        [0xF0 + cp div 0x40000, 0x80 + cp div 0x1000 mod 0x40,
         0x80 + cp div 0x40 mod 0x40, 0x80 + cp mod 0x40])"

definition hex_digit :: "nat \<Rightarrow> 16 word" where
  "hex_digit d = (if d < 10 then of_nat (0x30 + d) else of_nat (0x37 + d))"

text \<open>One octet as \<open>%XX\<close>, with upper-case hexadecimal digits.\<close>

definition escape_octet :: "nat \<Rightarrow> jsstring" where
  "escape_octet b = [0x25, hex_digit (b div 16), hex_digit (b mod 16)]"

definition escape_octets :: "nat list \<Rightarrow> jsstring" where
  "escape_octets bs = concat (map escape_octet bs)"

text \<open>
  \<open>Encode\<close> (ECMA-262, 19.2.6.5) with the unreserved set above: an unreserved code
  unit is copied; any other is read as a code point (a surrogate pair is one code
  point, an unpaired surrogate throws \<open>URIError\<close>) and written as its escaped UTF-8
  octets.
\<close>

fun Encode :: "jsstring \<Rightarrow> error + jsstring" where
  "Encode [] = Inr []"
| "Encode (c # cs) =
     (if uriUnreserved c then
        (case Encode cs of Inl e \<Rightarrow> Inl e | Inr r \<Rightarrow> Inr (c # r))
      else if is_lead c then
        (case cs of
           [] \<Rightarrow> Inl URIError
         | d # ds \<Rightarrow>
             if is_trail d then
               (case Encode ds of
                  Inl e \<Rightarrow> Inl e
                | Inr r \<Rightarrow> Inr (escape_octets (utf8_octets (pair_code_point c d)) @ r))
             else Inl URIError)
      else if is_trail c then Inl URIError
      else
        (case Encode cs of
           Inl e \<Rightarrow> Inl e
         | Inr r \<Rightarrow> Inr (escape_octets (utf8_octets (unat c)) @ r)))"

text \<open>\<open>encodeURIComponent(v)\<close>: the argument is converted to a string first.\<close>

definition encodeURIComponent :: "jsval \<Rightarrow> error + jsstring" where
  "encodeURIComponent v = (case ToString v of Inl e \<Rightarrow> Inl e | Inr s \<Rightarrow> Encode s)"

text \<open>The value of a hexadecimal digit, of either case.\<close>

definition hex_value :: "16 word \<Rightarrow> nat option" where
  "hex_value c =
     (let n = unat c in
        if 0x30 \<le> n \<and> n \<le> 0x39 then Some (n - 0x30)
        else if 0x41 \<le> n \<and> n \<le> 0x46 then Some (n - 0x41 + 10)
        else if 0x61 \<le> n \<and> n \<le> 0x66 then Some (n - 0x61 + 10)
        else None)"

text \<open>\<open>ParseHexOctet\<close>: the octet written by two hexadecimal digits.\<close>

definition hex_octet :: "16 word \<Rightarrow> 16 word \<Rightarrow> nat option" where
  "hex_octet h l =
     (case hex_value h of
        None \<Rightarrow> None
      | Some a \<Rightarrow> (case hex_value l of None \<Rightarrow> None | Some b \<Rightarrow> Some (a * 16 + b)))"

text \<open>
  The \<open>n\<close> escaped octets \<open>%XX\<close> that continue a multi-octet sequence, and the rest
  of the string after them; \<open>None\<close> where the string is too short or is not of
  this form.
\<close>

fun continuation :: "nat \<Rightarrow> jsstring \<Rightarrow> (nat list \<times> jsstring) option" where
  "continuation 0 s = Some ([], s)"
| "continuation (Suc n) (p # h # l # s) =
     (if p = 0x25 then
        (case hex_octet h l of
           None \<Rightarrow> None
         | Some b \<Rightarrow>
             (case continuation n s of
                None \<Rightarrow> None
              | Some (bs, r) \<Rightarrow> Some (b # bs, r)))
      else None)"
| "continuation (Suc n) s = None"

definition is_cont :: "nat \<Rightarrow> bool" where
  "is_cont b = (0x80 \<le> b \<and> b < 0xC0)"

text \<open>
  The code point that a multi-octet UTF-8 sequence encodes; \<open>None\<close> where the octets
  are not the valid UTF-8 encoding of a code point (a wrong continuation octet, an
  overlong form, a surrogate, a value above \<open>0x10FFFF\<close>).
\<close>

fun utf8_code_point :: "nat list \<Rightarrow> nat option" where
  "utf8_code_point [b0, b1] =
     (let cp = (b0 - 0xC0) * 0x40 + (b1 - 0x80) in
        if is_cont b1 \<and> 0x80 \<le> cp then Some cp else None)"
| "utf8_code_point [b0, b1, b2] =
     (let cp = (b0 - 0xE0) * 0x1000 + (b1 - 0x80) * 0x40 + (b2 - 0x80) in
        if is_cont b1 \<and> is_cont b2 \<and> 0x800 \<le> cp \<and> \<not> (0xD800 \<le> cp \<and> cp \<le> 0xDFFF)
        then Some cp else None)"
| "utf8_code_point [b0, b1, b2, b3] =
     (let cp = (b0 - 0xF0) * 0x40000 + (b1 - 0x80) * 0x1000 + (b2 - 0x80) * 0x40 + (b3 - 0x80) in
        if is_cont b1 \<and> is_cont b2 \<and> is_cont b3 \<and> 0x10000 \<le> cp \<and> cp \<le> 0x10FFFF
        then Some cp else None)"
| "utf8_code_point bs = None"

text \<open>\<open>UTF16EncodeCodePoint\<close>.\<close>

definition utf16_units :: "nat \<Rightarrow> jsstring" where
  "utf16_units cp =
     (if cp \<le> 0xFFFF then [of_nat cp]
      else [of_nat (0xD800 + (cp - 0x10000) div 0x400), of_nat (0xDC00 + (cp - 0x10000) mod 0x400)])"

text \<open>
  The number of octets of the sequence that a first octet announces: the count of
  its leading 1 bits (5 stands for "more than four").
\<close>

definition leading_ones :: "nat \<Rightarrow> nat" where
  "leading_ones b =
     (if b < 0x80 then 0 else if b < 0xC0 then 1 else if b < 0xE0 then 2
      else if b < 0xF0 then 3 else if b < 0xF8 then 4 else 5)"

lemma continuation_length:
  "continuation n s = Some (bs, r) \<Longrightarrow> length r \<le> length s"
proof (induction n s arbitrary: bs r rule: continuation.induct)
  case (1 s)
  then show ?case by simp
next
  case (2 n p h l s)
  then show ?case
    by (fastforce split: if_splits option.splits)
qed simp_all

text \<open>
  \<open>Decode\<close> (ECMA-262, 19.2.6.6) with an empty reserved set, as
  \<open>decodeURIComponent\<close> calls it: every failure throws \<open>URIError\<close>.
\<close>

function Decode :: "jsstring \<Rightarrow> error + jsstring" where
  "Decode [] = Inr []"
| "Decode (c # cs) =
     (if c \<noteq> 0x25 then
        (case Decode cs of Inl e \<Rightarrow> Inl e | Inr r \<Rightarrow> Inr (c # r))
      else
        (case cs of
           h # l # rest \<Rightarrow>
             (case hex_octet h l of
                None \<Rightarrow> Inl URIError
              | Some b \<Rightarrow>
                  let n = leading_ones b in
                  if n = 0 then
                    (case Decode rest of Inl e \<Rightarrow> Inl e | Inr r \<Rightarrow> Inr (of_nat b # r))
                  else if n = 1 \<or> 4 < n then Inl URIError
                  else
                    (case continuation (n - 1) rest of
                       None \<Rightarrow> Inl URIError
                     | Some (bs, rest') \<Rightarrow>
                         (case utf8_code_point (b # bs) of
                            None \<Rightarrow> Inl URIError
                          | Some cp \<Rightarrow>
                              (case Decode rest' of
                                 Inl e \<Rightarrow> Inl e
                               | Inr r \<Rightarrow> Inr (utf16_units cp @ r)))))
         | _ \<Rightarrow> Inl URIError))"
  by pat_completeness auto
termination
proof (relation "measure length", goal_cases)
  case (4 c cs h t l rest b n x bs rest')
  then show ?case
    using continuation_length [of "leading_ones b - 1" rest bs rest'] by simp
qed simp_all

text \<open>\<open>decodeURIComponent(s)\<close> on a string argument.\<close>

definition decodeURIComponent :: "jsstring \<Rightarrow> error + jsstring" where
  "decodeURIComponent s = Decode s"

section \<open>String primitives used by \<open>parse\<close>\<close>

text \<open>
  \<open>String.prototype.split\<close> with a string separator (ECMA-262, 22.1.3.23): the
  string is scanned from the left, each occurrence of the separator ends a piece and
  the scan resumes after it. \<open>cur\<close> is the piece read so far. An empty separator
  splits into code units.
\<close>

function split_from :: "jsstring \<Rightarrow> jsstring \<Rightarrow> jsstring \<Rightarrow> jsstring list" where
  "split_from sep cur [] = [cur]"
| "split_from sep cur (c # cs) =
     (if sep \<noteq> [] \<and> prefix sep (c # cs)
      then cur # split_from sep [] (drop (length sep) (c # cs))
      else split_from sep (cur @ [c]) cs)"
  by pat_completeness auto
termination
  by (relation "measure (\<lambda>(sep, cur, s). length s)") auto

definition str_split :: "jsstring \<Rightarrow> jsstring \<Rightarrow> jsstring list" where
  "str_split s sep = (if sep = [] then map (\<lambda>c. [c]) s else split_from sep [] s)"

text \<open>
  The regular expression \<open>/.*?\?/\<close> of line 67. \<open>.\<close> matches any code unit but a
  line terminator (ECMA-262, 22.2.2.9: LF, CR, LS, PS), \<open>*?\<close> takes as few as
  possible. \<open>match_here s\<close> is the match that starts at the head of \<open>s\<close>: \<open>Some r\<close>
  with the rest \<open>r\<close> after the matched \<open>?\<close>, or \<open>None\<close> when a line terminator or the
  end comes first.
\<close>

definition line_terminator :: "16 word \<Rightarrow> bool" where
  "line_terminator c = (c = 0x0A \<or> c = 0x0D \<or> c = 0x2028 \<or> c = 0x2029)"

fun match_here :: "jsstring \<Rightarrow> jsstring option" where
  "match_here [] = None"
| "match_here (c # cs) =
     (if c = 0x3F then Some cs
      else if line_terminator c then None
      else match_here cs)"

text \<open>
  \<open>str.replace(/.*?\?/, '')\<close>: the regular expression is not global, so the first
  match is replaced, the one that starts at the leftmost position where a match
  exists; without a match the string is returned as it is.
\<close>

fun replace_first :: "jsstring \<Rightarrow> jsstring" where
  "replace_first [] = []"
| "replace_first (c # cs) =
     (case match_here (c # cs) of
        Some r \<Rightarrow> r
      | None \<Rightarrow> c # replace_first cs)"

section \<open>The object that \<open>parse\<close> builds\<close>

text \<open>Decimal digits of a number, as array indices are written.\<close>

fun dec :: "nat \<Rightarrow> jsstring" where
  "dec n = (if n < 10 then [of_nat (0x30 + n)] else dec (n div 10) @ [of_nat (0x30 + n mod 10)])"

declare dec.simps [simp del]

text \<open>
  A built-in function object: converted to a string it gives its source text, which
  for a native function has this form.
\<close>

definition native :: "string \<Rightarrow> jsval" where
  "native name = Obj [] (Inr (js (''function '' @ name @ ''() { [native code] }'')))"

text \<open>
  The data properties that every object literal inherits from \<open>Object.prototype\<close>
  (ECMA-262, 20.1.3 and B.2.2), all of them functions, and those that an array adds
  from \<open>Array.prototype\<close> (ECMA-262, 23.1.3). \<open>Object.prototype\<close> also has the accessor
  \<open>__proto__\<close>, which reads and writes the prototype of the object.
\<close>

definition object_prototype :: "(jsstring \<times> jsval) list" where
  "object_prototype =
     (js ''constructor'', native ''Object'') #
     map (\<lambda>k. (js k, native k))
       [''hasOwnProperty'', ''isPrototypeOf'', ''propertyIsEnumerable'', ''toLocaleString'',
        ''toString'', ''valueOf'', ''__defineGetter__'', ''__defineSetter__'',
        ''__lookupGetter__'', ''__lookupSetter__'']"

definition array_prototype :: "(jsstring \<times> jsval) list" where
  "array_prototype =
     (js ''constructor'', native ''Array'') #
     map (\<lambda>k. (js k, native k))
       [''at'', ''concat'', ''copyWithin'', ''entries'', ''every'', ''fill'', ''filter'', ''find'',
        ''findIndex'', ''findLast'', ''findLastIndex'', ''flat'', ''flatMap'', ''forEach'',
        ''includes'', ''indexOf'', ''join'', ''keys'', ''lastIndexOf'', ''map'', ''pop'', ''push'',
        ''reduce'', ''reduceRight'', ''reverse'', ''shift'', ''slice'', ''some'', ''sort'',
        ''splice'', ''toLocaleString'', ''toReversed'', ''toSorted'', ''toSpliced'', ''toString'',
        ''unshift'', ''values'', ''with'']"

text \<open>\<open>Object.prototype\<close> itself, as a value: it has no enumerable property.\<close>

definition Object_prototype :: jsval where
  "Object_prototype = Obj [] (Inr (js ''[object Object]''))"

text \<open>
  The object \<open>obj\<close> of \<open>parse\<close>, created as \<open>{}\<close> in line 56: its own properties in
  the order of their creation, and its prototype, which is \<open>Object.prototype\<close>
  (\<open>None\<close>) until an assignment to \<open>obj["__proto__"]\<close> replaces it by an array
  (\<open>Some\<close> of its elements).
\<close>

record pobj =
  own :: "(jsstring \<times> jsval) list"
  proto :: "jsval list option"

definition empty_object :: pobj where
  "empty_object = \<lparr>own = [], proto = None\<rparr>"

text \<open>The element index that a property key names in an array, if any.\<close>

definition array_index :: "jsval list \<Rightarrow> jsstring \<Rightarrow> nat option" where
  "array_index arr key = List.find (\<lambda>i. dec i = key) [0..<length arr]"

text \<open>
  What the prototype chain gives for a key that is not an own property: with the
  original prototype, the properties of \<open>Object.prototype\<close>; with an array as
  prototype, its elements and \<open>length\<close>, then \<open>Array.prototype\<close>, then
  \<open>Object.prototype\<close>. A key found nowhere reads as \<open>undefined\<close>.
\<close>

definition from_Object_prototype :: "jsval \<Rightarrow> jsstring \<Rightarrow> jsval" where
  "from_Object_prototype p key =
     (if key = js ''__proto__'' then p
      else (case map_of object_prototype key of Some f \<Rightarrow> f | None \<Rightarrow> Undefined))"

definition inherited :: "jsval list option \<Rightarrow> jsstring \<Rightarrow> jsval" where
  "inherited p key =
     (case p of
        None \<Rightarrow> from_Object_prototype Object_prototype key
      | Some arr \<Rightarrow>
          (case array_index arr key of
             Some i \<Rightarrow> arr ! i
           | None \<Rightarrow>
               if key = js ''length'' then Num (dec (length arr))
               else (case map_of array_prototype key of
                       Some f \<Rightarrow> f
                     | None \<Rightarrow> from_Object_prototype (Arr arr) key)))"

text \<open>The property read \<open>obj[key]\<close>.\<close>

definition Get :: "pobj \<Rightarrow> jsstring \<Rightarrow> jsval" where
  "Get obj key =
     (case map_of (own obj) key of
        Some v \<Rightarrow> v
      | None \<Rightarrow> inherited (proto obj) key)"

text \<open>
  The assignment \<open>obj[key] = v\<close>: an own property is overwritten; otherwise the
  inherited accessor \<open>__proto__\<close> runs its setter, which makes an object argument
  the prototype of \<open>obj\<close> and ignores a primitive one (\<open>parse\<close> reaches it in line 87
  only, with a new array), and any other key becomes a new own property, the last in
  order.
\<close>

definition Put :: "pobj \<Rightarrow> jsstring \<Rightarrow> jsval \<Rightarrow> pobj" where
  "Put obj key v =
     (if map_of (own obj) key = None \<and> key = js ''__proto__'' then
        (case v of Arr xs \<Rightarrow> obj\<lparr>proto := Some xs\<rparr> | _ \<Rightarrow> obj)
      else obj\<lparr>own := AList.update key v (own obj)\<rparr>)"

text \<open>
  \<open>obj[key].push(value)\<close>: the array that \<open>obj[key]\<close> reads is extended in place,
  where it is stored: in an own property, or, inherited, as the prototype array
  itself (\<open>__proto__\<close>) or one of its elements. \<open>parse\<close> calls it on arrays only.
\<close>

definition push :: "pobj \<Rightarrow> jsstring \<Rightarrow> jsval \<Rightarrow> pobj" where
  "push obj key value =
     (case map_of (own obj) key of
        Some v \<Rightarrow> obj\<lparr>own := AList.update key (Arr (elems v @ [value])) (own obj)\<rparr>
      | None \<Rightarrow>
          (case proto obj of
             None \<Rightarrow> obj
           | Some arr \<Rightarrow>
               (case array_index arr key of
                  Some i \<Rightarrow> obj\<lparr>proto := Some (arr[i := Arr (elems (arr ! i) @ [value])])\<rparr>
                | None \<Rightarrow>
                    if key = js ''__proto__'' then obj\<lparr>proto := Some (arr @ [value])\<rparr>
                    else obj)))"

section \<open>\<open>parse\<close>\<close>

text \<open>
  Lines 86 to 92: a key that reads as something other than \<open>undefined\<close> gets the
  value appended, after its entry was made a one-element array if it was not an
  array; any other key is set to the value.
\<close>

definition store :: "pobj \<Rightarrow> jsstring \<Rightarrow> jsval \<Rightarrow> pobj" where
  "store obj key value =
     (if Get obj key \<noteq> Undefined then
        push (if \<not> isArray (Get obj key) then Put obj key (Arr [Get obj key]) else obj) key value
      else Put obj key value)"

text \<open>
  A callback \<open>fn\<close> may have effects of its own, on a state \<open>'s\<close> of the caller that
  the model passes through: \<open>fn key value s\<close> is the returned value and the state
  after the call. Callbacks are taken to return (not to throw).
\<close>

type_synonym 's ParseFunction = "jsstring \<Rightarrow> jsstring \<Rightarrow> 's \<Rightarrow> jsval \<times> 's"
type_synonym 's StringifyFunction = "jsstring \<Rightarrow> jsval \<Rightarrow> 's \<Rightarrow> jsval \<times> 's"

text \<open>
  The loop of lines 71 to 93 over the groups. A thrown error ends the loop; the
  effects that the callback had until then remain.
\<close>

fun parse_groups ::
  "jsstring \<Rightarrow> 's ParseFunction \<Rightarrow> jsstring list \<Rightarrow> pobj \<Rightarrow> 's \<Rightarrow> (error + pobj) \<times> 's" where
  "parse_groups eq fn [] obj s = (Inr obj, s)"
| "parse_groups eq fn (grp # groups) obj s =
     (let keyValue = str_split grp eq in
      if length keyValue \<noteq> 2 then parse_groups eq fn groups obj s
      else
        (case decodeURIComponent (keyValue ! 0) of
           Inl e \<Rightarrow> (Inl e, s)
         | Inr key \<Rightarrow>
             (case decodeURIComponent (keyValue ! 1) of
                Inl e \<Rightarrow> (Inl e, s)
              | Inr value \<Rightarrow>
                  (case fn key value s of
                     (value', s') \<Rightarrow> parse_groups eq fn groups (store obj key value') s'))))"

text \<open>\<open>if (!sep) sep = '&'\<close>: an absent, \<open>null\<close> or empty separator gets the default.\<close>

definition or_default :: "jsstring option \<Rightarrow> jsstring \<Rightarrow> jsstring" where
  "or_default sep d = (case sep of None \<Rightarrow> d | Some x \<Rightarrow> if x = [] then d else x)"

text \<open>
  \<open>parse(str, sep, eq, fn)\<close>. \<open>str\<close> is any value, since line 57 tests its type;
  \<open>sep\<close> and \<open>eq\<close> are \<open>None\<close> when absent or \<open>null\<close>; \<open>fn\<close> is \<open>None\<close> when absent or
  not a function.
\<close>

definition parse ::
  "jsval \<Rightarrow> jsstring option \<Rightarrow> jsstring option \<Rightarrow> 's ParseFunction option \<Rightarrow> 's
   \<Rightarrow> (error + pobj) \<times> 's" where
  "parse str sep eq fn s =
     (case str of
        Str t \<Rightarrow>
          if t = [] then (Inr empty_object, s)
          else
            parse_groups (or_default eq (js ''=''))
              (case fn of None \<Rightarrow> (\<lambda>key value s. (Str value, s)) | Some f \<Rightarrow> f)
              (str_split (replace_first t) (or_default sep (js ''&'')))
              empty_object s
      | _ \<Rightarrow> (Inr empty_object, s))"

section \<open>\<open>stringify\<close>\<close>

text \<open>
  The own enumerable properties of a value that passes \<open>isObject\<close>, in the order of
  \<open>Object.keys\<close>: those of an array are its elements under their indices.
\<close>

fun own_properties :: "jsval \<Rightarrow> (jsstring \<times> jsval) list" where
  "own_properties (Arr xs) = zip (map dec [0..<length xs]) xs"
| "own_properties (Obj ps r) = ps"
| "own_properties v = []"

definition Object_keys :: "jsval \<Rightarrow> jsstring list" where
  "Object_keys obj = map fst (own_properties obj)"

text \<open>\<open>obj[key]\<close> in line 150, where \<open>key\<close> is one of \<open>Object.keys(obj)\<close>.\<close>

definition property :: "jsval \<Rightarrow> jsstring \<Rightarrow> jsval" where
  "property obj key = (case map_of (own_properties obj) key of Some v \<Rightarrow> v | None \<Rightarrow> Undefined)"

text \<open>
  \<open>isObject\<close> (lines 173 to 176): \<open>typeof\<close> is \<open>'object'\<close> or \<open>'function'\<close>, and the
  value is not \<open>null\<close>.
\<close>

fun isObject :: "jsval \<Rightarrow> bool" where
  "isObject (Arr xs) = True"
| "isObject (Obj ps r) = True"
| "isObject v = False"

text \<open>The loop of lines 157 to 160 over the elements of an array value.\<close>

fun stringify_elements ::
  "jsstring \<Rightarrow> jsstring \<Rightarrow> jsstring \<Rightarrow> 's StringifyFunction \<Rightarrow> jsval list \<Rightarrow> jsstring list \<Rightarrow> 's
   \<Rightarrow> (error + jsstring list) \<times> 's" where
  "stringify_elements key ekey eq fn [] qs s = (Inr qs, s)"
| "stringify_elements key ekey eq fn (val # vals) qs s =
     (case fn key val s of
        (val', s') \<Rightarrow>
          (case encodeURIComponent val' of
             Inl e \<Rightarrow> (Inl e, s')
           | Inr v \<Rightarrow> stringify_elements key ekey eq fn vals (qs @ [join eq [ekey, v]]) s'))"

text \<open>The loop of lines 148 to 168 over the keys; \<open>qs\<close> is the array of the pairs.\<close>

fun stringify_keys ::
  "jsval \<Rightarrow> jsstring \<Rightarrow> 's StringifyFunction \<Rightarrow> jsstring list \<Rightarrow> jsstring list \<Rightarrow> 's
   \<Rightarrow> (error + jsstring list) \<times> 's" where
  "stringify_keys obj eq fn [] qs s = (Inr qs, s)"
| "stringify_keys obj eq fn (key # keys) qs s =
     (case encodeURIComponent (Str key) of
        Inl e \<Rightarrow> (Inl e, s)
      | Inr ekey \<Rightarrow>
          let value = property obj key in
          if value = Undefined then stringify_keys obj eq fn keys qs s
          else if isArray value then
            (case stringify_elements key ekey eq fn (elems value) qs s of
               (Inl e, s') \<Rightarrow> (Inl e, s')
             | (Inr qs', s') \<Rightarrow> stringify_keys obj eq fn keys qs' s')
          else
            (case fn key value s of
               (value', s') \<Rightarrow>
                 (case encodeURIComponent value' of
                    Inl e \<Rightarrow> (Inl e, s')
                  | Inr v \<Rightarrow> stringify_keys obj eq fn keys (qs @ [join eq [ekey, v]]) s')))"

text \<open>\<open>stringify(obj, sep, eq, fn)\<close>, with the arguments as for \<open>parse\<close>.\<close>

definition stringify ::
  "jsval \<Rightarrow> jsstring option \<Rightarrow> jsstring option \<Rightarrow> 's StringifyFunction option \<Rightarrow> 's
   \<Rightarrow> (error + jsstring) \<times> 's" where
  "stringify obj sep eq fn s =
     (if obj = Undefined \<or> obj = Null \<or> \<not> isObject obj then (Inr [], s)
      else
        (case stringify_keys obj (or_default eq (js ''=''))
                (case fn of None \<Rightarrow> (\<lambda>key value s. (value, s)) | Some f \<Rightarrow> f)
                (Object_keys obj) [] s of
           (Inl e, s') \<Rightarrow> (Inl e, s')
         | (Inr qs, s') \<Rightarrow> (Inr (join (or_default sep (js ''&'')) qs), s')))"

section \<open>The serializer as the specification words it\<close>

text \<open>
  Section 4.2 of the specification, as a second definition to compare \<open>stringify\<close>
  with: each key gives a list of pairs (none for an \<open>undefined\<close> value, one per element
  for a sequence, one for a scalar), each pair is the encoded key, the key-value
  separator and the encoded value, and the pairs of all keys, in order, are joined with
  the group separator between them. \<open>sequence\<close> collects results in order and stops at
  the first error.
\<close>

fun sequence :: "(error + 'a) list \<Rightarrow> error + 'a list" where
  "sequence [] = Inr []"
| "sequence (x # xs) =
     (case x of
        Inl e \<Rightarrow> Inl e
      | Inr a \<Rightarrow> (case sequence xs of Inl e \<Rightarrow> Inl e | Inr as \<Rightarrow> Inr (a # as)))"

definition spec_pair :: "jsstring \<Rightarrow> jsstring \<Rightarrow> jsval \<Rightarrow> error + jsstring" where
  "spec_pair eq ekey v =
     (case encodeURIComponent v of Inl e \<Rightarrow> Inl e | Inr ev \<Rightarrow> Inr (ekey @ eq @ ev))"

definition spec_pairs :: "jsstring \<Rightarrow> jsstring \<Rightarrow> jsval \<Rightarrow> error + jsstring list" where
  "spec_pairs eq key value =
     (case Encode key of
        Inl e \<Rightarrow> Inl e
      | Inr ekey \<Rightarrow>
          if value = Undefined then Inr []
          else if isArray value then sequence (map (spec_pair eq ekey) (elems value))
          else sequence [spec_pair eq ekey value])"

text \<open>The first pair, then each further pair after a separator: none leads, none trails.\<close>

definition spec_join :: "jsstring \<Rightarrow> jsstring list \<Rightarrow> jsstring" where
  "spec_join sep ps = (case ps of [] \<Rightarrow> [] | p # ps' \<Rightarrow> p @ concat (map (\<lambda>q. sep @ q) ps'))"

definition spec_stringify :: "jsval \<Rightarrow> jsstring \<Rightarrow> jsstring \<Rightarrow> error + jsstring" where
  "spec_stringify obj sep eq =
     (case sequence (map (\<lambda>key. spec_pairs eq key (property obj key)) (Object_keys obj)) of
        Inl e \<Rightarrow> Inl e
      | Inr pss \<Rightarrow> Inr (spec_join sep (concat pss)))"

section \<open>Notions used to state the properties\<close>

text \<open>
  A group is retained when it splits in exactly two parts (line 75); decoding a
  retained group fails with \<open>e\<close> when \<open>decodeURIComponent\<close> throws \<open>e\<close> on its key or,
  the key decoded, on its value.
\<close>

definition retained :: "jsstring \<Rightarrow> jsstring \<Rightarrow> bool" where
  "retained eq g = (length (str_split g eq) = 2)"


text \<open>
  The scalar occurrences that \<open>parse\<close> discovers: the decoded key and value of each
  retained group that decodes, in the order of the groups.
\<close>

fun parse_occurrences :: "jsstring \<Rightarrow> jsstring list \<Rightarrow> (jsstring \<times> jsstring) list" where
  "parse_occurrences eq [] = []"
| "parse_occurrences eq (g # gs) =
     (case str_split g eq of
        [k, v] \<Rightarrow>
          (case decodeURIComponent k of
             Inl e \<Rightarrow> []
           | Inr key \<Rightarrow>
               (case decodeURIComponent v of
                  Inl e \<Rightarrow> []
                | Inr value \<Rightarrow> [(key, value)]))
      | _ \<Rightarrow> []) @ parse_occurrences eq gs"

text \<open>
  One call of the callback per occurrence, in order, each call starting in the state
  the previous one left: the keys with the returned values, and the last state.
\<close>

fun invoke_each :: "('k \<Rightarrow> 'a \<Rightarrow> 's \<Rightarrow> jsval \<times> 's) \<Rightarrow> ('k \<times> 'a) list \<Rightarrow> 's \<Rightarrow> ('k \<times> jsval) list \<times> 's" where
  "invoke_each fn [] s = ([], s)"
| "invoke_each fn ((key, a) # os) s =
     (case fn key a s of
        (v, s') \<Rightarrow> (case invoke_each fn os s' of (kvs, s'') \<Rightarrow> ((key, v) # kvs, s'')))"

text \<open>
  The scalar occurrences that \<open>stringify\<close> discovers: for each key in order, none for
  an \<open>undefined\<close> value, each element of a sequence, the value itself otherwise.
  \<open>spec_entry\<close> is the pair written for a key and a value.
\<close>

definition key_occurrences :: "jsval \<Rightarrow> jsstring \<Rightarrow> (jsstring \<times> jsval) list" where
  "key_occurrences obj key =
     (let v = property obj key in
      if v = Undefined then [] else if isArray v then map (Pair key) (elems v) else [(key, v)])"

definition stringify_occurrences :: "jsval \<Rightarrow> (jsstring \<times> jsval) list" where
  "stringify_occurrences obj = concat (map (key_occurrences obj) (Object_keys obj))"

definition spec_entry :: "jsstring \<Rightarrow> jsstring \<times> jsval \<Rightarrow> error + jsstring" where
  "spec_entry eq kv =
     (case Encode (fst kv) of Inl e \<Rightarrow> Inl e | Inr ekey \<Rightarrow> spec_pair eq ekey (snd kv))"

text \<open>A Unicode scalar value: a code point that is not a surrogate.\<close>

definition scalar_value :: "nat \<Rightarrow> bool" where
  "scalar_value cp = (cp < 0x110000 \<and> \<not> (0xD800 \<le> cp \<and> cp \<le> 0xDFFF))"

text \<open>
  A well-formed string has no unpaired surrogate: each lead surrogate is followed by a
  trail surrogate, and no trail surrogate stands elsewhere. A text value is a
  well-formed string, a number, a boolean, \<open>null\<close> or \<open>undefined\<close>; a plain value is a
  text value or a sequence of text values.
\<close>

fun well_formed :: "jsstring \<Rightarrow> bool" where
  "well_formed [] = True"
| "well_formed (c # cs) =
     (if is_lead c then (case cs of [] \<Rightarrow> False | d # ds \<Rightarrow> is_trail d \<and> well_formed ds)
      else \<not> is_trail c \<and> well_formed cs)"




text \<open>
  For the round trip: the encoding of a well-formed string; the group written for a
  key and a string; the values that come back as they were, a well-formed string or a
  sequence of at least two; the strings of such a value, and the groups written for a
  key with such a value.
\<close>

definition encoded :: "jsstring \<Rightarrow> jsstring" where
  "encoded t = (case Encode t of Inl e \<Rightarrow> [] | Inr e \<Rightarrow> e)"

definition piece :: "jsstring \<Rightarrow> jsstring \<Rightarrow> jsstring" where
  "piece key t = encoded key @ js ''='' @ encoded t"

fun is_string :: "jsval \<Rightarrow> bool" where
  "is_string (Str t) = well_formed t"
| "is_string v = False"

fun string_or_strings :: "jsval \<Rightarrow> bool" where
  "string_or_strings (Str t) = well_formed t"
| "string_or_strings (Arr xs) = (2 \<le> length xs \<and> list_all is_string xs)"
| "string_or_strings v = False"

fun text_of :: "jsval \<Rightarrow> jsstring" where
  "text_of (Str t) = t"
| "text_of v = []"

fun strings_of :: "jsval \<Rightarrow> jsstring list" where
  "strings_of (Arr xs) = map text_of xs"
| "strings_of v = [text_of v]"

definition pieces_of :: "jsstring \<times> jsval \<Rightarrow> jsstring list" where
  "pieces_of kv = map (piece (fst kv)) (strings_of (snd kv))"

section \<open>Decoding reverses encoding\<close>

lemma unat_of_nat16: "n < 65536 \<Longrightarrow> unat (of_nat n :: 16 word) = n"
  by (simp add: unat_of_nat)

lemma unat_hex_digit:
  assumes "d < 16"
  shows "unat (hex_digit d) = (if d < 10 then 0x30 + d else 0x37 + d)"
proof -
  have a: "unat (of_nat (0x30 + d) :: 16 word) = 0x30 + d"
    by (rule unat_of_nat16) (use assms in simp)
  have b: "unat (of_nat (0x37 + d) :: 16 word) = 0x37 + d"
    by (rule unat_of_nat16) (use assms in simp)
  show ?thesis
    by (cases "d < 10") (simp_all only: hex_digit_def a b if_True if_False)
qed

lemma hex_value_hex_digit: "d < 16 \<Longrightarrow> hex_value (hex_digit d) = Some d"
  by (simp add: hex_value_def unat_hex_digit Let_def)

lemma hex_octet_escape:
  "b < 256 \<Longrightarrow> hex_octet (hex_digit (b div 16)) (hex_digit (b mod 16)) = Some b"
proof -
  assume b: "b < 256"
  then have "b div 16 < 16" "b mod 16 < 16" by auto
  then show ?thesis
    by (simp add: hex_octet_def hex_value_hex_digit)
qed

lemma continuation_escape:
  "\<forall>b \<in> set bs. b < 256 \<Longrightarrow> continuation (length bs) (escape_octets bs @ r) = Some (bs, r)"
  by (induction bs) (simp_all add: escape_octets_def escape_octet_def hex_octet_escape)

lemma Decode_plain:
  "c \<noteq> 0x25 \<Longrightarrow>
     Decode (c # cs) = (case Decode cs of Inl e \<Rightarrow> Inl e | Inr r \<Rightarrow> Inr (c # r))"
  by simp

lemma Decode_escaped:
  "hex_octet h l = Some b \<Longrightarrow>
     Decode (0x25 # h # l # rest) =
       (if leading_ones b = 0 then
          (case Decode rest of Inl e \<Rightarrow> Inl e | Inr r \<Rightarrow> Inr (of_nat b # r))
        else if leading_ones b = 1 \<or> 4 < leading_ones b then Inl URIError
        else
          (case continuation (leading_ones b - 1) rest of
             None \<Rightarrow> Inl URIError
           | Some (bs, rest') \<Rightarrow>
               (case utf8_code_point (b # bs) of
                  None \<Rightarrow> Inl URIError
                | Some cp \<Rightarrow>
                    (case Decode rest' of
                       Inl e \<Rightarrow> Inl e
                     | Inr r \<Rightarrow> Inr (utf16_units cp @ r)))))"
  by (simp add: Let_def)

declare Decode.simps(2) [simp del]

lemma mod_64_less_128: "x mod 64 < (128::nat)"
proof -
  have "x mod 64 < 64" by simp
  then show ?thesis by linarith
qed

lemma recompose3:
  "(cp div 0x1000) * 0x1000 + (cp div 0x40 mod 0x40) * 0x40 + cp mod 0x40 = (cp::nat)"
proof -
  have a: "cp = cp div 64 * 64 + cp mod 64" by simp
  have b: "cp div 64 = cp div 64 div 64 * 64 + cp div 64 mod 64" by simp
  have c: "cp div 64 div 64 = cp div 4096" by (simp add: div_mult2_eq [symmetric])
  have "cp = (cp div 4096 * 64 + cp div 64 mod 64) * 64 + cp mod 64"
    using a b c by metis
  then show ?thesis by (simp add: algebra_simps)
qed

lemma recompose4:
  "(cp div 0x40000) * 0x40000 + (cp div 0x1000 mod 0x40) * 0x1000
        + (cp div 0x40 mod 0x40) * 0x40 + cp mod 0x40 = (cp::nat)"
proof -
  have a: "cp div 0x1000 = cp div 0x1000 div 64 * 64 + cp div 0x1000 mod 64" by simp
  have c: "cp div 0x1000 div 64 = cp div 0x40000" by (simp add: div_mult2_eq [symmetric])
  have "cp = (cp div 0x40000 * 64 + cp div 0x1000 mod 64) * 0x1000 + (cp div 0x40 mod 0x40) * 0x40 + cp mod 0x40"
    using a c recompose3 [of cp] by metis
  then show ?thesis by (simp add: algebra_simps)
qed

lemma utf8_code_point_2:
  assumes "0x80 \<le> cp" "cp < 0x800"
  shows "utf8_code_point [0xC0 + cp div 0x40, 0x80 + cp mod 0x40] = Some cp"
proof -
  have "cp div 0x40 * 0x40 + cp mod 0x40 = cp" by simp
  then show ?thesis using assms by (simp add: is_cont_def mod_64_less_128)
qed


lemma utf8_code_point_3:
  assumes "0x800 \<le> cp" "cp < 0x10000" "\<not> (0xD800 \<le> cp \<and> cp \<le> 0xDFFF)"
  shows "utf8_code_point [0xE0 + cp div 0x1000, 0x80 + cp div 0x40 mod 0x40, 0x80 + cp mod 0x40]
           = Some cp"
  using assms by (simp add: is_cont_def mod_64_less_128 recompose3)

lemma utf8_code_point_4:
  assumes "0x10000 \<le> cp" "cp < 0x110000"
  shows "utf8_code_point [0xF0 + cp div 0x40000, 0x80 + cp div 0x1000 mod 0x40,
            0x80 + cp div 0x40 mod 0x40, 0x80 + cp mod 0x40] = Some cp"
  using assms by (simp add: is_cont_def mod_64_less_128 recompose4)


lemma Decode_octets:
  assumes "hex_octet h l = Some b0" "leading_ones b0 = Suc (length bs)" "bs \<noteq> []" "length bs < 4"
    and "\<forall>b \<in> set bs. b < 256" and "utf8_code_point (b0 # bs) = Some cp"
  shows "Decode (0x25 # h # l # escape_octets bs @ r) =
     (case Decode r of Inl e \<Rightarrow> Inl e | Inr r' \<Rightarrow> Inr (utf16_units cp @ r'))"
proof -
  have "continuation (leading_ones b0 - 1) (escape_octets bs @ r) = Some (bs, r)"
    using assms(2,5) by (simp add: continuation_escape)
  moreover have "leading_ones b0 \<noteq> 0" "\<not> (leading_ones b0 = 1 \<or> 4 < leading_ones b0)"
    using assms(2,3,4) by auto
  ultimately show ?thesis
    using assms(1,6) by (simp add: Decode_escaped split: sum.splits)
qed

lemma Decode_utf8:
  assumes "scalar_value cp"
  shows "Decode (escape_octets (utf8_octets cp) @ r) =
     (case Decode r of Inl e \<Rightarrow> Inl e | Inr r' \<Rightarrow> Inr (utf16_units cp @ r'))"
proof -
  have cp: "cp < 0x110000" "\<not> (0xD800 \<le> cp \<and> cp \<le> 0xDFFF)"
    using assms by (simp_all add: scalar_value_def)
  consider (one) "cp < 0x80" | (two) "0x80 \<le> cp" "cp < 0x800"
    | (three) "0x800 \<le> cp" "cp < 0x10000" | (four) "0x10000 \<le> cp"
    by linarith
  then show ?thesis
  proof cases
    case one
    then have "escape_octets (utf8_octets cp) @ r = 0x25 # hex_digit (cp div 16) # hex_digit (cp mod 16) # r"
      by (simp add: utf8_octets_def escape_octets_def escape_octet_def)
    moreover have "hex_octet (hex_digit (cp div 16)) (hex_digit (cp mod 16)) = Some cp"
      using one by (simp add: hex_octet_escape)
    moreover have "leading_ones cp = 0" using one by (simp add: leading_ones_def)
    moreover have "utf16_units cp = [of_nat cp]" using one by (simp add: utf16_units_def)
    ultimately show ?thesis by (simp add: Decode_escaped split: sum.splits)
  next
    case two
    let ?b0 = "0xC0 + cp div 0x40" and ?bs = "[0x80 + cp mod 0x40]"
    have d: "cp div 0x40 < 0x20" using two by (simp add: div_less_iff_less_mult)
    have o: "escape_octets (utf8_octets cp) @ r =
        0x25 # hex_digit (?b0 div 16) # hex_digit (?b0 mod 16) # escape_octets ?bs @ r"
      using two by (simp add: utf8_octets_def escape_octets_def escape_octet_def)
    have "?b0 < 256" using d by simp
    then have h: "hex_octet (hex_digit (?b0 div 16)) (hex_digit (?b0 mod 16)) = Some ?b0"
      by (rule hex_octet_escape)
    have l: "leading_ones ?b0 = Suc (length ?bs)" using d by (simp add: leading_ones_def)
    have b: "\<forall>b \<in> set ?bs. b < 256" by (simp add: mod_64_less_128)
    show ?thesis
      unfolding o using Decode_octets [OF h l _ _ b utf8_code_point_2 [OF two]] by simp
  next
    case three
    let ?b0 = "0xE0 + cp div 0x1000" and ?bs = "[0x80 + cp div 0x40 mod 0x40, 0x80 + cp mod 0x40]"
    have d: "cp div 0x1000 < 0x10" using three by (simp add: div_less_iff_less_mult)
    have o: "escape_octets (utf8_octets cp) @ r =
        0x25 # hex_digit (?b0 div 16) # hex_digit (?b0 mod 16) # escape_octets ?bs @ r"
      using three by (simp add: utf8_octets_def escape_octets_def escape_octet_def)
    have "?b0 < 256" using d by simp
    then have h: "hex_octet (hex_digit (?b0 div 16)) (hex_digit (?b0 mod 16)) = Some ?b0"
      by (rule hex_octet_escape)
    have l: "leading_ones ?b0 = Suc (length ?bs)" using d by (simp add: leading_ones_def)
    have b: "\<forall>b \<in> set ?bs. b < 256" by (simp add: mod_64_less_128)
    show ?thesis
      unfolding o
      using Decode_octets [OF h l _ _ b utf8_code_point_3 [OF three cp(2)]] by simp
  next
    case four
    let ?b0 = "0xF0 + cp div 0x40000"
      and ?bs = "[0x80 + cp div 0x1000 mod 0x40, 0x80 + cp div 0x40 mod 0x40, 0x80 + cp mod 0x40]"
    have d: "cp div 0x40000 < 0x8" using cp by (simp add: div_less_iff_less_mult)
    have o: "escape_octets (utf8_octets cp) @ r =
        0x25 # hex_digit (?b0 div 16) # hex_digit (?b0 mod 16) # escape_octets ?bs @ r"
      using four by (simp add: utf8_octets_def escape_octets_def escape_octet_def)
    have "?b0 < 256" using d by simp
    then have h: "hex_octet (hex_digit (?b0 div 16)) (hex_digit (?b0 mod 16)) = Some ?b0"
      by (rule hex_octet_escape)
    have l: "leading_ones ?b0 = Suc (length ?bs)" using d by (simp add: leading_ones_def)
    have b: "\<forall>b \<in> set ?bs. b < 256" by (simp add: mod_64_less_128)
    show ?thesis
      unfolding o
      using Decode_octets [OF h l _ _ b utf8_code_point_4 [OF four cp(1)]] by simp
  qed
qed


lemma unreserved_not_percent: "uriUnreserved c \<Longrightarrow> c \<noteq> 0x25"
proof
  assume u: "uriUnreserved c" and "c = 0x25"
  then have "unat c = 0x25" by simp
  with u show False by (simp add: uriUnreserved_def)
qed

lemma unat_less_65536: "unat (c :: 16 word) < 65536"
  using unsigned_less [of c, where ?'a = nat] by simp

lemma scalar_value_unit: "\<not> is_lead c \<Longrightarrow> \<not> is_trail c \<Longrightarrow> scalar_value (unat c)"
  using unat_less_65536 [of c] by (auto simp: scalar_value_def is_lead_def is_trail_def)

lemma utf16_units_unit: "utf16_units (unat (c :: 16 word)) = [c]"
  using unat_less_65536 [of c] by (simp add: utf16_units_def)

lemma pair_arith:
  fixes a b :: nat
  assumes "b < 0x400"
  shows "(a * 0x400 + b) div 0x400 = a" "(a * 0x400 + b) mod 0x400 = b"
  using assms by simp_all

lemma pair_code_point_eq:
  assumes "is_lead c" "is_trail d"
  shows "\<exists>a b. a < 0x400 \<and> b < 0x400 \<and> unat c = 0xD800 + a \<and> unat d = 0xDC00 + b
           \<and> pair_code_point c d = 0x10000 + (a * 0x400 + b)"
proof -
  let ?a = "unat c - 0xD800" and ?b = "unat d - 0xDC00"
  have "?a < 0x400" "?b < 0x400" "unat c = 0xD800 + ?a" "unat d = 0xDC00 + ?b"
    using assms by (auto simp: is_lead_def is_trail_def)
  moreover have "pair_code_point c d = 0x10000 + (?a * 0x400 + ?b)"
    by (simp add: pair_code_point_def)
  ultimately show ?thesis by blast
qed

lemma scalar_value_pair:
  assumes "is_lead c" "is_trail d"
  shows "scalar_value (pair_code_point c d)"
proof -
  obtain a b where ab: "a < 0x400" "b < 0x400" "pair_code_point c d = 0x10000 + (a * 0x400 + b)"
    using pair_code_point_eq [OF assms] by blast
  have "a * 0x400 \<le> 0x3FF * 0x400" using ab(1) by simp
  then have "a * 0x400 + b < 0x100000" using ab(2) by simp
  then show ?thesis by (simp add: scalar_value_def ab(3))
qed

lemma utf16_units_pair:
  assumes "is_lead c" "is_trail d"
  shows "utf16_units (pair_code_point c d) = [c, d]"
proof -
  obtain a b where ab: "a < 0x400" "b < 0x400" "unat c = 0xD800 + a" "unat d = 0xDC00 + b"
      "pair_code_point c d = 0x10000 + (a * 0x400 + b)"
    using pair_code_point_eq [OF assms] by blast
  have "utf16_units (pair_code_point c d) =
      [of_nat (0xD800 + (a * 0x400 + b) div 0x400), of_nat (0xDC00 + (a * 0x400 + b) mod 0x400)]"
    by (simp add: utf16_units_def ab(5))
  also have "\<dots> = [of_nat (unat c), of_nat (unat d)]"
    by (simp only: pair_arith [OF ab(2)] ab(3,4))
  finally show ?thesis by simp
qed

lemma Decode_Encode: "Encode s = Inr e \<Longrightarrow> Decode e = Inr s"
proof (induction s arbitrary: e rule: Encode.induct)
  case 1
  then show ?case by simp
next
  case (2 c cs)
  show ?case
  proof (cases "uriUnreserved c")
    case True
    with "2.prems" obtain r where r: "Encode cs = Inr r" "e = c # r"
      by (auto split: sum.splits)
    then have "Decode r = Inr cs" using "2.IH"(1) True by simp
    then show ?thesis using r True by (simp add: Decode_plain unreserved_not_percent)
  next
    case unres: False
    show ?thesis
    proof (cases "is_lead c")
      case True
      with unres "2.prems" obtain d ds r where r: "cs = d # ds" "is_trail d" "Encode ds = Inr r"
          "e = escape_octets (utf8_octets (pair_code_point c d)) @ r"
        by (auto split: sum.splits list.splits if_splits)
      then have "Decode r = Inr ds" using "2.IH"(2) unres True by simp
      then show ?thesis
        using r True by (simp add: Decode_utf8 scalar_value_pair utf16_units_pair)
    next
      case False
      with unres "2.prems" obtain r where r: "\<not> is_trail c" "Encode cs = Inr r"
          "e = escape_octets (utf8_octets (unat c)) @ r"
        by (auto split: sum.splits if_splits)
      then have "Decode r = Inr cs" using "2.IH"(3) unres False by simp
      then show ?thesis
        using r False by (simp add: Decode_utf8 scalar_value_unit utf16_units_unit)
    qed
  qed
qed

section \<open>Properties of the loop of \<open>parse\<close>\<close>

lemma length_2_iff: "length xs = 2 \<longleftrightarrow> (\<exists>a b. xs = [a, b])"
  by (cases xs; cases "tl xs"; cases "tl (tl xs)") auto

lemma parse_groups_skip:
  "\<not> retained eq g \<Longrightarrow> parse_groups eq fn (g # gs) obj s = parse_groups eq fn gs obj s"
  by (simp add: retained_def)

lemma parse_groups_retained:
  "str_split g eq = [k, v] \<Longrightarrow>
     parse_groups eq fn (g # gs) obj s =
       (case decodeURIComponent k of
          Inl e \<Rightarrow> (Inl e, s)
        | Inr key \<Rightarrow>
            (case decodeURIComponent v of
               Inl e \<Rightarrow> (Inl e, s)
             | Inr value \<Rightarrow>
                 (case fn key value s of
                    (value', s') \<Rightarrow> parse_groups eq fn gs (store obj key value') s')))"
  by (simp split: sum.splits prod.splits)

declare parse_groups.simps(2) [simp del]




lemma parse_groups_calls:
  "parse_groups eq fn gs obj s = (Inr obj', s') \<Longrightarrow>
     s' = snd (invoke_each fn (parse_occurrences eq gs) s)
     \<and> obj' = fold (\<lambda>(key, v) obj. store obj key v) (fst (invoke_each fn (parse_occurrences eq gs) s)) obj
     \<and> length (parse_occurrences eq gs) = length (filter (retained eq) gs)"
proof (induction gs arbitrary: obj s)
  case Nil
  then show ?case by simp
next
  case (Cons g gs)
  show ?case
  proof (cases "retained eq g")
    case True
    then obtain k v where kv: "str_split g eq = [k, v]"
      by (auto simp: retained_def length_2_iff)
    from Cons.prems obtain key "value" value' s1 where
      d: "decodeURIComponent k = Inr key" "decodeURIComponent v = Inr value"
        "fn key value s = (value', s1)"
        "parse_groups eq fn gs (store obj key value') s1 = (Inr obj', s')"
      by (auto simp: parse_groups_retained [OF kv] split: sum.splits prod.splits)
    show ?thesis
      using Cons.IH [OF d(4)] d(1,2,3) True
      by (simp add: kv split: prod.splits)
  next
    case False
    then have "parse_occurrences eq (g # gs) = parse_occurrences eq gs"
      by (auto simp: retained_def split: list.splits)
    then show ?thesis
      using False Cons.IH [of obj s] Cons.prems by (simp add: parse_groups_skip)
  qed
qed

text \<open>Unfolding the definitions evaluates \<open>parse\<close> on a given string.\<close>

lemma continuation_numeral:
  "continuation (numeral k) s = continuation (Suc (pred_numeral k)) s"
  by (simp add: numeral_eq_Suc)

lemmas decode_eval =
  decodeURIComponent_def Decode.simps hex_octet_def hex_value_def leading_ones_def
  utf8_code_point.simps is_cont_def utf16_units_def continuation_numeral

lemmas split_eval = str_split_def retained_def

lemmas parse_eval =
  parse_def js_def or_default_def split_eval empty_object_def parse_groups.simps decode_eval
  store_def Get_def Put_def push_def inherited_def from_Object_prototype_def
  object_prototype_def native_def line_terminator_def

section \<open>Properties of \<open>stringify\<close>\<close>

text \<open>The pairs that each loop pushes are appended to those already in \<open>qs\<close>.\<close>

lemma stringify_elements_acc:
  "stringify_elements key ekey eq fn vals qs s =
     (case stringify_elements key ekey eq fn vals [] s of
        (Inl e, s') \<Rightarrow> (Inl e, s')
      | (Inr ps, s') \<Rightarrow> (Inr (qs @ ps), s'))"
proof (induction vals arbitrary: qs s)
  case Nil
  then show ?case by simp
next
  case (Cons val vals)
  obtain val' s' where f: "fn key val s = (val', s')" by (cases "fn key val s")
  show ?case
  proof (cases "encodeURIComponent val'")
    case (Inl e)
    with f show ?thesis by simp
  next
    case (Inr v)
    show ?thesis
      using f Inr Cons.IH [of "qs @ [join eq [ekey, v]]" s'] Cons.IH [of "[join eq [ekey, v]]" s']
      by (simp split: prod.splits sum.splits)
  qed
qed

lemma stringify_keys_acc:
  "stringify_keys obj eq fn keys qs s =
     (case stringify_keys obj eq fn keys [] s of
        (Inl e, s') \<Rightarrow> (Inl e, s')
      | (Inr ps, s') \<Rightarrow> (Inr (qs @ ps), s'))"
proof (induction keys arbitrary: qs s)
  case Nil
  then show ?case by simp
next
  case (Cons key keys)
  show ?case
  proof (cases "encodeURIComponent (Str key)")
    case (Inl e)
    then show ?thesis by simp
  next
    case ek: (Inr ekey)
    let ?v = "property obj key"
    consider (undef) "?v = Undefined"
      | (arr) "?v \<noteq> Undefined" "isArray ?v"
      | (scalar) "?v \<noteq> Undefined" "\<not> isArray ?v"
      by blast
    then show ?thesis
    proof cases
      case undef
      then show ?thesis using ek Cons.IH [of qs s] by simp
    next
      case arr
      obtain r s1 where el: "stringify_elements key ekey eq fn (elems ?v) [] s = (r, s1)"
        by (cases "stringify_elements key ekey eq fn (elems ?v) [] s")
      show ?thesis
      proof (cases r)
        case (Inl e)
        then show ?thesis
          using ek arr el stringify_elements_acc [of key ekey eq fn "elems ?v" qs s]
          by simp
      next
        case (Inr ps)
        then show ?thesis
          using ek arr el stringify_elements_acc [of key ekey eq fn "elems ?v" qs s]
            Cons.IH [of "qs @ ps" s1] Cons.IH [of ps s1]
          by (simp split: prod.splits sum.splits)
      qed
    next
      case scalar
      obtain value' s1 where f: "fn key ?v s = (value', s1)" by (cases "fn key ?v s")
      show ?thesis
      proof (cases "encodeURIComponent value'")
        case (Inl e)
        then show ?thesis using ek scalar f by simp
      next
        case (Inr v)
        then show ?thesis
          using ek scalar f Cons.IH [of "qs @ [join eq [ekey, v]]" s1]
            Cons.IH [of "[join eq [ekey, v]]" s1]
          by (simp split: prod.splits sum.splits)
      qed
    qed
  qed
qed

lemma stringify_elements_identity:
  "stringify_elements key ekey eq (\<lambda>key value s. (value, s)) vals [] s =
     (case sequence (map (spec_pair eq ekey) vals) of
        Inl e \<Rightarrow> (Inl e, s)
      | Inr ps \<Rightarrow> (Inr ps, s))"
proof (induction vals)
  case Nil
  then show ?case by simp
next
  case (Cons val vals)
  show ?case
    using Cons.IH
      stringify_elements_acc [of key ekey eq "\<lambda>key value s. (value, s)" vals "[join eq [ekey, v]]" s for v]
    by (simp add: spec_pair_def split: sum.splits)
qed

lemma stringify_keys_identity:
  "stringify_keys obj eq (\<lambda>key value s. (value, s)) keys [] s =
     (case sequence (map (\<lambda>key. spec_pairs eq key (property obj key)) keys) of
        Inl e \<Rightarrow> (Inl e, s)
      | Inr pss \<Rightarrow> (Inr (concat pss), s))"
proof (induction keys)
  case Nil
  then show ?case by simp
next
  case (Cons key keys)
  let ?fn = "\<lambda>(key :: jsstring) (value :: jsval) (s :: 'a). (value, s)"
  show ?case
  proof (cases "Encode key")
    case (Inl e)
    then show ?thesis by (simp add: spec_pairs_def encodeURIComponent_def)
  next
    case ek: (Inr ekey)
    let ?v = "property obj key"
    consider (undef) "?v = Undefined"
      | (arr) "?v \<noteq> Undefined" "isArray ?v"
      | (scalar) "?v \<noteq> Undefined" "\<not> isArray ?v"
      by blast
    then show ?thesis
    proof cases
      case undef
      then show ?thesis
        using ek Cons.IH by (simp add: spec_pairs_def encodeURIComponent_def split: sum.splits)
    next
      case arr
      show ?thesis
      proof (cases "sequence (map (spec_pair eq ekey) (elems ?v))")
        case (Inl e)
        then show ?thesis
          using ek arr stringify_elements_identity [of key ekey eq "elems ?v" s]
          by (simp add: spec_pairs_def encodeURIComponent_def)
      next
        case (Inr ps)
        then show ?thesis
          using ek arr stringify_elements_identity [of key ekey eq "elems ?v" s]
            Cons.IH stringify_keys_acc [of obj eq ?fn keys ps s]
          by (simp add: spec_pairs_def encodeURIComponent_def split: sum.splits)
      qed
    next
      case scalar
      show ?thesis
      proof (cases "encodeURIComponent ?v")
        case (Inl e)
        then show ?thesis
          using ek scalar by (simp add: spec_pairs_def spec_pair_def encodeURIComponent_def)
      next
        case (Inr v)
        then show ?thesis
          using ek scalar Cons.IH stringify_keys_acc [of obj eq ?fn keys "[ekey @ eq @ v]" s]
          by (simp add: spec_pairs_def spec_pair_def encodeURIComponent_def split: sum.splits)
      qed
    qed
  qed
qed

lemma join_spec_join: "join sep ps = spec_join sep ps"
  by (induction sep ps rule: join.induct) (simp_all add: spec_join_def)


lemmas encode_eval =
  js_def encodeURIComponent_def uriUnreserved_def is_lead_def is_trail_def utf8_octets_def
  escape_octets_def escape_octet_def hex_digit_def pair_code_point_def

lemmas stringify_eval =
  stringify_def or_default_def Object_keys_def property_def encode_eval

text \<open>
  C9. For every object-like mapping, \<open>stringify\<close> (default callback) visits the keys in
  the order of \<open>Object.keys\<close>; a key whose value is \<open>undefined\<close> gives no pair, a
  sequence gives one pair per element in element order, a scalar gives one pair; the
  pairs are joined with the group separator in the order of emission, with no leading
  or trailing separator: \<open>stringify\<close> is the serializer of the specification. Booleans
  and numbers are written in their canonical text form (\<open>false\<close> as \<open>"false"\<close>).
\<close>

theorem stringify_follows_spec:
  "(isObject obj \<longrightarrow>
      stringify obj sep eq None s =
        (spec_stringify obj (or_default sep (js ''&'')) (or_default eq (js ''='')), s))
   \<and> encodeURIComponent (Bool False) = Inr (js ''false'')
   \<and> encodeURIComponent (Bool True) = Inr (js ''true'')
   \<and> encodeURIComponent (Num t) = Encode t"
proof (intro conjI impI)
  assume obj: "isObject obj"
  then have "obj \<noteq> Undefined" "obj \<noteq> Null" by auto
  with obj show "stringify obj sep eq None s =
       (spec_stringify obj (or_default sep (js ''&'')) (or_default eq (js ''='')), s)"
    by (simp add: stringify_def spec_stringify_def stringify_keys_identity join_spec_join
        split: sum.splits)
next
  show "encodeURIComponent (Bool False) = Inr (js ''false'')"
    by (simp add: encode_eval)
  show "encodeURIComponent (Bool True) = Inr (js ''true'')"
    by (simp add: encode_eval)
  show "encodeURIComponent (Num t) = Encode t"
    by (simp add: encodeURIComponent_def)
qed

theorem stringify_follows_spec_witness:
  "stringify
     (Obj [(js ''a'', Str (js ''1'')), (js ''u'', Undefined),
           (js ''b'', Arr [Str (js ''s''), Num (js ''2'')]), (js ''c'', Bool False)]
        (Inr (js ''[object Object]'')))
     None None None () = (Inr (js ''a=1&b=s&b=2&c=false''), ())"
  using stringify_follows_spec [of "Obj [(js ''a'', Str (js ''1'')), (js ''u'', Undefined),
           (js ''b'', Arr [Str (js ''s''), Num (js ''2'')]), (js ''c'', Bool False)]
        (Inr (js ''[object Object]''))" None None "()"]
  by (simp add: spec_stringify_def spec_pairs_def spec_pair_def spec_join_def
      Object_keys_def property_def or_default_def encode_eval)

text \<open>
  C10. A key whose value is \<open>null\<close> is not skipped (only \<open>undefined\<close> is): wherever
  the key stands in the mapping, the loop pushes the pair of the encoded key and the
  text \<open>null\<close> and goes on; a mapping with this key alone gives just that pair, and
  \<open>stringify({a: null})\<close> is \<open>"a=null"\<close>.
\<close>

theorem null_value_not_skipped:
  "(property obj key = Null \<and> Encode key = Inr ekey \<longrightarrow>
      stringify_keys obj eq (\<lambda>key value s. (value, s)) (key # keys) qs s =
      stringify_keys obj eq (\<lambda>key value s. (value, s)) keys (qs @ [ekey @ eq @ js ''null'']) s)
   \<and> (Encode key = Inr ekey \<longrightarrow>
      stringify (Obj [(key, Null)] r) sepo eqo None s =
        (Inr (ekey @ or_default eqo (js ''='') @ js ''null''), s))
   \<and> stringify (Obj [(js ''a'', Null)] r) None None None s = (Inr (js ''a=null''), s)"
proof (intro conjI impI)
  show "stringify_keys obj eq (\<lambda>key value s. (value, s)) (key # keys) qs s =
     stringify_keys obj eq (\<lambda>key value s. (value, s)) keys (qs @ [ekey @ eq @ js ''null'']) s"
    if "property obj key = Null \<and> Encode key = Inr ekey"
    using that by (simp add: encode_eval)
  show "stringify (Obj [(key, Null)] r) sepo eqo None s =
       (Inr (ekey @ or_default eqo (js ''='') @ js ''null''), s)"
    if "Encode key = Inr ekey"
    using that by (simp add: stringify_eval)
  show "stringify (Obj [(js ''a'', Null)] r) None None None s = (Inr (js ''a=null''), s)"
    by (simp add: stringify_eval)
qed

theorem null_value_not_skipped_witness:
  "stringify (Obj [(js ''k'', Null), (js ''z'', Str (js ''1''))] (Inr [])) (Some (js ''|'')) (Some (js ''#'')) None () =
     (Inr (js ''k#null|z#1''), ())"
proof -
  have "property (Obj [(js ''k'', Null), (js ''z'', Str (js ''1''))] (Inr [])) (js ''k'') = Null
      \<and> Encode (js ''k'') = Inr (js ''k'')"
    by (simp add: property_def encode_eval)
  with null_value_not_skipped [of "Obj [(js ''k'', Null), (js ''z'', Str (js ''1''))] (Inr [])"
      "js ''k''" "js ''k''" "js ''#''" "[js ''z'']" "[]" "()"]
  show ?thesis
    by (simp add: stringify_eval)
qed


section \<open>The calls of the callback\<close>

lemma invoke_each_append:
  "invoke_each fn (xs @ ys) s =
     (case invoke_each fn xs s of
        (a, s1) \<Rightarrow> (case invoke_each fn ys s1 of (b, s2) \<Rightarrow> (a @ b, s2)))"
  by (induction xs arbitrary: s) (auto split: prod.splits)

lemma sequence_append:
  "sequence xs = Inr as \<Longrightarrow> sequence ys = Inr bs \<Longrightarrow> sequence (xs @ ys) = Inr (as @ bs)"
  by (induction xs arbitrary: as) (auto split: sum.splits)

lemma stringify_elements_calls:
  assumes "stringify_elements key ekey eq fn vals [] s = (Inr ps, s')" "Encode key = Inr ekey"
  shows "\<exists>kvs. invoke_each fn (map (Pair key) vals) s = (kvs, s')
           \<and> sequence (map (spec_entry eq) kvs) = Inr ps"
  using assms(1)
proof (induction vals arbitrary: s ps)
  case Nil
  then show ?case by simp
next
  case (Cons val vals)
  obtain val' s1 where f: "fn key val s = (val', s1)" by (cases "fn key val s")
  with Cons.prems obtain v where v: "encodeURIComponent val' = Inr v"
      and r: "stringify_elements key ekey eq fn vals [join eq [ekey, v]] s1 = (Inr ps, s')"
    by (auto split: sum.splits)
  from r obtain ps' where ps': "stringify_elements key ekey eq fn vals [] s1 = (Inr ps', s')"
      "ps = (ekey @ eq @ v) # ps'"
    using stringify_elements_acc [of key ekey eq fn vals "[join eq [ekey, v]]" s1]
    by (auto split: prod.splits sum.splits)
  from Cons.IH [OF ps'(1)] obtain kvs where kvs: "invoke_each fn (map (Pair key) vals) s1 = (kvs, s')"
      "sequence (map (spec_entry eq) kvs) = Inr ps'"
    by blast
  have "spec_entry eq (key, val') = Inr (ekey @ eq @ v)"
    using v assms(2) by (simp add: spec_entry_def spec_pair_def)
  then show ?case
    using f kvs ps'(2) by simp
qed

lemma stringify_keys_calls:
  assumes "stringify_keys obj eq fn keys [] s = (Inr ps, s')"
  shows "\<exists>kvs. invoke_each fn (concat (map (key_occurrences obj) keys)) s = (kvs, s')
           \<and> sequence (map (spec_entry eq) kvs) = Inr ps"
  using assms
proof (induction keys arbitrary: s ps)
  case Nil
  then show ?case by simp
next
  case (Cons key keys)
  from Cons.prems obtain ekey where ek: "Encode key = Inr ekey"
    by (auto simp: encodeURIComponent_def split: sum.splits)
  let ?v = "property obj key"
  consider (undef) "?v = Undefined"
    | (arr) "?v \<noteq> Undefined" "isArray ?v"
    | (scalar) "?v \<noteq> Undefined" "\<not> isArray ?v"
    by blast
  then show ?case
  proof cases
    case undef
    then have "stringify_keys obj eq fn keys [] s = (Inr ps, s')"
      using Cons.prems ek by (simp add: encodeURIComponent_def)
    moreover have "key_occurrences obj key = []"
      using undef by (simp add: key_occurrences_def)
    ultimately show ?thesis
      using Cons.IH [of s ps] by simp
  next
    case arr
    from Cons.prems obtain qs s1 where
      el: "stringify_elements key ekey eq fn (elems ?v) [] s = (Inr qs, s1)"
      and r: "stringify_keys obj eq fn keys qs s1 = (Inr ps, s')"
      using ek arr by (auto simp: encodeURIComponent_def split: sum.splits prod.splits)
    from r obtain ps' where ps': "stringify_keys obj eq fn keys [] s1 = (Inr ps', s')" "ps = qs @ ps'"
      using stringify_keys_acc [of obj eq fn keys qs s1]
      by (auto split: prod.splits sum.splits)
    from stringify_elements_calls [OF el ek] obtain kvs1 where
      k1: "invoke_each fn (map (Pair key) (elems ?v)) s = (kvs1, s1)"
        "sequence (map (spec_entry eq) kvs1) = Inr qs"
      by blast
    from Cons.IH [OF ps'(1)] obtain kvs2 where
      k2: "invoke_each fn (concat (map (key_occurrences obj) keys)) s1 = (kvs2, s')"
        "sequence (map (spec_entry eq) kvs2) = Inr ps'"
      by blast
    have "key_occurrences obj key = map (Pair key) (elems ?v)"
      using arr by (simp add: key_occurrences_def)
    then show ?thesis
      using k1 k2 ps'(2)
      by (simp add: invoke_each_append sequence_append)
  next
    case scalar
    obtain value' s1 where f: "fn key ?v s = (value', s1)" by (cases "fn key ?v s")
    with Cons.prems obtain v where v: "encodeURIComponent value' = Inr v"
        and r: "stringify_keys obj eq fn keys [join eq [ekey, v]] s1 = (Inr ps, s')"
      using ek scalar by (auto simp: encodeURIComponent_def split: sum.splits)
    from r obtain ps' where ps': "stringify_keys obj eq fn keys [] s1 = (Inr ps', s')"
        "ps = (ekey @ eq @ v) # ps'"
      using stringify_keys_acc [of obj eq fn keys "[join eq [ekey, v]]" s1]
      by (auto split: prod.splits sum.splits)
    from Cons.IH [OF ps'(1)] obtain kvs2 where
      k2: "invoke_each fn (concat (map (key_occurrences obj) keys)) s1 = (kvs2, s')"
        "sequence (map (spec_entry eq) kvs2) = Inr ps'"
      by blast
    have "spec_entry eq (key, value') = Inr (ekey @ eq @ v)"
      using v ek by (simp add: spec_entry_def spec_pair_def)
    moreover have "key_occurrences obj key = [(key, ?v)]"
      using scalar by (simp add: key_occurrences_def)
    ultimately show ?thesis
      using f k2 ps'(2) by simp
  qed
qed

lemma invoke_each_append_state:
  "snd (invoke_each fn (xs @ ys) s) = snd (invoke_each fn ys (snd (invoke_each fn xs s)))"
  by (simp add: invoke_each_append split: prod.splits)

lemma parse_groups_calls_prefix:
  "\<exists>n. snd (parse_groups eq fn gs obj s) = snd (invoke_each fn (take n (parse_occurrences eq gs)) s)"
proof (induction gs arbitrary: obj s)
  case Nil
  then show ?case by simp
next
  case (Cons g gs)
  show ?case
  proof (cases "retained eq g")
    case False
    then have "parse_occurrences eq (g # gs) = parse_occurrences eq gs"
      by (auto simp: retained_def split: list.splits)
    then show ?thesis
      using False Cons.IH [of obj s] by (simp add: parse_groups_skip)
  next
    case True
    then obtain k v where kv: "str_split g eq = [k, v]"
      by (auto simp: retained_def length_2_iff)
    show ?thesis
    proof (cases "decodeURIComponent k")
      case (Inl e)
      then have "snd (parse_groups eq fn (g # gs) obj s) =
          snd (invoke_each fn (take 0 (parse_occurrences eq (g # gs))) s)"
        by (simp add: parse_groups_retained [OF kv])
      then show ?thesis by blast
    next
      case key: (Inr key)
      show ?thesis
      proof (cases "decodeURIComponent v")
        case (Inl e)
        then have "snd (parse_groups eq fn (g # gs) obj s) =
            snd (invoke_each fn (take 0 (parse_occurrences eq (g # gs))) s)"
          using key by (simp add: parse_groups_retained [OF kv])
        then show ?thesis by blast
      next
        case (Inr value')
        obtain w s1 where f: "fn key value' s = (w, s1)" by (cases "fn key value' s")
        from Cons.IH [of "store obj key w" s1] obtain n where
          n: "snd (parse_groups eq fn gs (store obj key w) s1) =
            snd (invoke_each fn (take n (parse_occurrences eq gs)) s1)"
          by blast
        have "snd (parse_groups eq fn (g # gs) obj s) =
            snd (invoke_each fn (take (Suc n) (parse_occurrences eq (g # gs))) s)"
          using key Inr f n by (simp add: parse_groups_retained [OF kv] kv split: prod.splits)
        then show ?thesis by blast
      qed
    qed
  qed
qed

lemma stringify_elements_calls_prefix:
  "\<exists>n \<le> length vals.
     snd (stringify_elements key ekey eq fn vals qs s) =
       snd (invoke_each fn (take n (map (Pair key) vals)) s)
     \<and> ((\<exists>ps. fst (stringify_elements key ekey eq fn vals qs s) = Inr ps) \<longrightarrow> n = length vals)"
proof (induction vals arbitrary: qs s)
  case Nil
  then show ?case by simp
next
  case (Cons val vals)
  obtain val' s1 where f: "fn key val s = (val', s1)" by (cases "fn key val s")
  show ?case
  proof (cases "encodeURIComponent val'")
    case (Inl e)
    then have "snd (stringify_elements key ekey eq fn (val # vals) qs s) =
        snd (invoke_each fn (take 1 (map (Pair key) (val # vals))) s)"
      and "\<not> (\<exists>ps. fst (stringify_elements key ekey eq fn (val # vals) qs s) = Inr ps)"
      using f by simp_all
    then show ?thesis by (intro exI [of _ 1]) simp
  next
    case (Inr v)
    from Cons.IH [of "qs @ [join eq [ekey, v]]" s1] obtain n where
      n: "n \<le> length vals"
        "snd (stringify_elements key ekey eq fn vals (qs @ [join eq [ekey, v]]) s1) =
          snd (invoke_each fn (take n (map (Pair key) vals)) s1)"
        "(\<exists>ps. fst (stringify_elements key ekey eq fn vals (qs @ [join eq [ekey, v]]) s1) = Inr ps)
          \<longrightarrow> n = length vals"
      by blast
    have "snd (stringify_elements key ekey eq fn (val # vals) qs s) =
        snd (invoke_each fn (take (Suc n) (map (Pair key) (val # vals))) s)"
      using f Inr n(2) by (simp split: prod.splits)
    moreover have "(\<exists>ps. fst (stringify_elements key ekey eq fn (val # vals) qs s) = Inr ps)
        \<longrightarrow> Suc n = length (val # vals)"
      using f Inr n(3) by simp
    ultimately show ?thesis using n(1) by (intro exI [of _ "Suc n"]) simp
  qed
qed

lemma stringify_keys_calls_prefix:
  "\<exists>n. snd (stringify_keys obj eq fn keys qs s) =
     snd (invoke_each fn (take n (concat (map (key_occurrences obj) keys))) s)"
proof (induction keys arbitrary: qs s)
  case Nil
  then show ?case by simp
next
  case (Cons key keys)
  let ?occ = "key_occurrences obj key"
  let ?rest = "concat (map (key_occurrences obj) keys)"
  show ?case
  proof (cases "encodeURIComponent (Str key)")
    case (Inl e)
    then have "snd (stringify_keys obj eq fn (key # keys) qs s) =
        snd (invoke_each fn (take 0 (concat (map (key_occurrences obj) (key # keys)))) s)"
      by simp
    then show ?thesis by blast
  next
    case ek: (Inr ekey)
    let ?v = "property obj key"
    consider (undef) "?v = Undefined"
      | (arr) "?v \<noteq> Undefined" "isArray ?v"
      | (scalar) "?v \<noteq> Undefined" "\<not> isArray ?v"
      by blast
    then show ?thesis
    proof cases
      case undef
      then have o: "?occ = []" by (simp add: key_occurrences_def)
      from Cons.IH [of qs s] obtain n where
        "snd (stringify_keys obj eq fn keys qs s) = snd (invoke_each fn (take n ?rest) s)"
        by blast
      then have "snd (stringify_keys obj eq fn (key # keys) qs s) =
          snd (invoke_each fn (take n (concat (map (key_occurrences obj) (key # keys)))) s)"
        using ek undef o by simp
      then show ?thesis by blast
    next
      case arr
      then have o: "?occ = map (Pair key) (elems ?v)" by (simp add: key_occurrences_def)
      obtain r s1 where el: "stringify_elements key ekey eq fn (elems ?v) qs s = (r, s1)"
        by (cases "stringify_elements key ekey eq fn (elems ?v) qs s")
      from stringify_elements_calls_prefix [of "elems ?v" key ekey eq fn qs s] el obtain n1 where
        n1: "n1 \<le> length (elems ?v)" "s1 = snd (invoke_each fn (take n1 ?occ) s)"
          "(\<exists>ps. r = Inr ps) \<longrightarrow> n1 = length (elems ?v)"
        by (auto simp: o)
      show ?thesis
      proof (cases r)
        case (Inl e)
        then have "snd (stringify_keys obj eq fn (key # keys) qs s) = s1"
          using ek arr el by simp
        also have "\<dots> = snd (invoke_each fn (take n1 (?occ @ ?rest)) s)"
          using n1(1,2) by (simp add: o)
        finally show ?thesis by (intro exI [of _ n1]) simp
      next
        case (Inr qs')
        with n1 have full: "s1 = snd (invoke_each fn ?occ s)" by (simp add: o)
        from Cons.IH [of qs' s1] obtain n2 where
          n2: "snd (stringify_keys obj eq fn keys qs' s1) = snd (invoke_each fn (take n2 ?rest) s1)"
          by blast
        have "snd (stringify_keys obj eq fn (key # keys) qs s) =
            snd (stringify_keys obj eq fn keys qs' s1)"
          using ek arr el Inr by simp
        also have "\<dots> = snd (invoke_each fn (take (length ?occ + n2) (?occ @ ?rest)) s)"
          using n2 full by (simp add: invoke_each_append_state)
        finally show ?thesis by (intro exI [of _ "length ?occ + n2"]) simp
      qed
    next
      case scalar
      then have o: "?occ = [(key, ?v)]" by (simp add: key_occurrences_def)
      obtain value' s1 where f: "fn key ?v s = (value', s1)" by (cases "fn key ?v s")
      show ?thesis
      proof (cases "encodeURIComponent value'")
        case (Inl e)
        then have "snd (stringify_keys obj eq fn (key # keys) qs s) =
            snd (invoke_each fn (take 1 (?occ @ ?rest)) s)"
          using ek scalar f by (simp add: o)
        then show ?thesis by (intro exI [of _ 1]) simp
      next
        case (Inr v)
        from Cons.IH [of "qs @ [join eq [ekey, v]]" s1] obtain n2 where
          n2: "snd (stringify_keys obj eq fn keys (qs @ [join eq [ekey, v]]) s1) =
            snd (invoke_each fn (take n2 ?rest) s1)"
          by blast
        have "snd (stringify_keys obj eq fn (key # keys) qs s) =
            snd (invoke_each fn (take (Suc n2) (?occ @ ?rest)) s)"
          using ek scalar f Inr n2 by (simp add: o split: prod.splits)
        then show ?thesis by (intro exI [of _ "Suc n2"]) simp
      qed
    qed
  qed
qed


lemma parse_calls_prefix:
  "\<exists>n. snd (parse (Str t) sep eq (Some fn) s) =
     snd (invoke_each fn (take n (parse_occurrences (or_default eq (js ''=''))
       (str_split (replace_first t) (or_default sep (js ''&''))))) s)"
proof (cases "t = []")
  case True
  then have "snd (parse (Str t) sep eq (Some fn) s) =
     snd (invoke_each fn (take 0 (parse_occurrences (or_default eq (js ''=''))
       (str_split (replace_first t) (or_default sep (js ''&''))))) s)"
    by (simp add: parse_def)
  then show ?thesis by blast
next
  case False
  then have "parse (Str t) sep eq (Some fn) s =
      parse_groups (or_default eq (js ''='')) fn
        (str_split (replace_first t) (or_default sep (js ''&''))) empty_object s"
    by (simp add: parse_def)
  then show ?thesis
    using parse_groups_calls_prefix [of "or_default eq (js ''='')" fn
        "str_split (replace_first t) (or_default sep (js ''&''))" empty_object s]
    by simp
qed

lemma stringify_calls_prefix:
  "\<exists>n. snd (stringify m sep eq (Some fn) s) =
     snd (invoke_each fn (take n (stringify_occurrences m)) s)"
proof (cases "m = Undefined \<or> m = Null \<or> \<not> isObject m")
  case True
  then have "snd (stringify m sep eq (Some fn) s) =
     snd (invoke_each fn (take 0 (stringify_occurrences m)) s)"
    by (auto simp: stringify_def)
  then show ?thesis by blast
next
  case False
  then have "snd (stringify m sep eq (Some fn) s) =
      snd (stringify_keys m (or_default eq (js ''='')) fn (Object_keys m) [] s)"
    by (auto simp: stringify_def split: prod.splits sum.splits)
  then show ?thesis
    using stringify_keys_calls_prefix [of m "or_default eq (js ''='')" fn "Object_keys m" "[]" s]
    by (simp add: stringify_occurrences_def)
qed

text \<open>
  C8. The callback is invoked exactly once per discovered scalar occurrence, in order,
  and the value it returns is the one that lands in the result. When \<open>parse\<close> returns,
  the calls were those of \<open>invoke_each\<close> on the decoded key and value of the retained
  groups (as many occurrences as retained groups), the caller's state is the one after
  the last call, and the object is built by storing the returned values. When
  \<open>stringify\<close> returns, the calls were those on the occurrences of the mapping (each
  element of a sequence, each scalar, none for an \<open>undefined\<close> value), and the string
  joins the pairs written from the returned values. Whether they return or raise, the
  calls that either function has made are those on an initial segment of its
  occurrences: one call each, in order, none repeated and none invented.
\<close>

theorem callback_once_per_occurrence:
  "(parse (Str t) sep eq (Some fn) s = (Inr obj, s') \<and> t \<noteq> [] \<longrightarrow>
      (\<exists>kvs. invoke_each fn
          (parse_occurrences (or_default eq (js ''=''))
            (str_split (replace_first t) (or_default sep (js ''&'')))) s = (kvs, s')
        \<and> obj = fold (\<lambda>(key, v) obj. store obj key v) kvs empty_object)
      \<and> length (parse_occurrences (or_default eq (js ''=''))
            (str_split (replace_first t) (or_default sep (js ''&''))))
          = length (filter (retained (or_default eq (js ''='')))
            (str_split (replace_first t) (or_default sep (js ''&'')))))
   \<and> (stringify m sep' eq' (Some fn') u = (Inr q, u') \<and> isObject m \<longrightarrow>
      (\<exists>kvs ps. invoke_each fn' (stringify_occurrences m) u = (kvs, u')
        \<and> sequence (map (spec_entry (or_default eq' (js ''=''))) kvs) = Inr ps
        \<and> q = join (or_default sep' (js ''&'')) ps))
   \<and> (\<exists>n. snd (parse (Str t) sep eq (Some fn) s) =
        snd (invoke_each fn (take n (parse_occurrences (or_default eq (js ''=''))
          (str_split (replace_first t) (or_default sep (js ''&''))))) s))
   \<and> (\<exists>n. snd (stringify m sep' eq' (Some fn') u) =
        snd (invoke_each fn' (take n (stringify_occurrences m)) u))"
proof (intro conjI impI)
  let ?E = "or_default eq (js ''='')"
  let ?G = "str_split (replace_first t) (or_default sep (js ''&''))"
  assume a: "parse (Str t) sep eq (Some fn) s = (Inr obj, s') \<and> t \<noteq> []"
  then have "parse_groups ?E fn ?G empty_object s = (Inr obj, s')"
    by (auto simp: parse_def)
  from parse_groups_calls [OF this]
  show "\<exists>kvs. invoke_each fn (parse_occurrences ?E ?G) s = (kvs, s')
        \<and> obj = fold (\<lambda>(key, v) obj. store obj key v) kvs empty_object"
    and "length (parse_occurrences ?E ?G) = length (filter (retained ?E) ?G)"
    by (cases "invoke_each fn (parse_occurrences ?E ?G) s"; simp)+
next
  assume a: "stringify m sep' eq' (Some fn') u = (Inr q, u') \<and> isObject m"
  then have m: "m \<noteq> Undefined" "m \<noteq> Null" by auto
  from a m obtain ps where
    ps: "stringify_keys m (or_default eq' (js ''='')) fn' (Object_keys m) [] u = (Inr ps, u')"
      "q = join (or_default sep' (js ''&'')) ps"
    by (auto simp: stringify_def split: prod.splits sum.splits)
  from stringify_keys_calls [OF ps(1)] ps(2)
  show "\<exists>kvs ps. invoke_each fn' (stringify_occurrences m) u = (kvs, u')
        \<and> sequence (map (spec_entry (or_default eq' (js ''=''))) kvs) = Inr ps
        \<and> q = join (or_default sep' (js ''&'')) ps"
    by (auto simp: stringify_occurrences_def)
next
  show "\<exists>n. snd (parse (Str t) sep eq (Some fn) s) =
        snd (invoke_each fn (take n (parse_occurrences (or_default eq (js ''=''))
          (str_split (replace_first t) (or_default sep (js ''&''))))) s)"
    by (rule parse_calls_prefix)
next
  show "\<exists>n. snd (stringify m sep' eq' (Some fn') u) =
        snd (invoke_each fn' (take n (stringify_occurrences m)) u)"
    by (rule stringify_calls_prefix)
qed

theorem callback_once_per_occurrence_witness:
  "parse (Str (js ''a=1&b&a=2'')) None None
       (Some (\<lambda>key value n. (Str (value @ js ''!''), Suc n))) (0 :: nat) =
     (Inr \<lparr>own = [(js ''a'', Arr [Str (js ''1!''), Str (js ''2!'')])], proto = None\<rparr>, 2)
   \<and> snd (invoke_each (\<lambda>key value n. (Str (value @ js ''!''), Suc n))
         (parse_occurrences (js ''='') (str_split (replace_first (js ''a=1&b&a=2'')) (js ''&'')))
         (0 :: nat)) = 2
   \<and> stringify (Obj [(js ''a'', Arr [Str (js ''x''), Str (js ''y'')]), (js ''u'', Undefined),
         (js ''b'', Num (js ''1''))] (Inr (js ''[object Object]''))) None None
       (Some (\<lambda>key value n. (Bool True, Suc n))) (0 :: nat) = (Inr (js ''a=true&a=true&b=true''), 3)
   \<and> snd (invoke_each (\<lambda>key value n. (Bool True, Suc n))
         (stringify_occurrences (Obj [(js ''a'', Arr [Str (js ''x''), Str (js ''y'')]),
            (js ''u'', Undefined), (js ''b'', Num (js ''1''))] (Inr (js ''[object Object]''))))
         (0 :: nat)) = 3"
proof -
  let ?fn = "\<lambda>(key :: jsstring) (value :: jsstring) (n :: nat). (Str (value @ js ''!''), Suc n)"
  let ?fn' = "\<lambda>(key :: jsstring) (value :: jsval) (n :: nat). (Bool True, Suc n)"
  let ?t = "js ''a=1&b&a=2''"
  let ?obj = "\<lparr>own = [(js ''a'', Arr [Str (js ''1!''), Str (js ''2!'')])], proto = None\<rparr>"
  let ?m = "Obj [(js ''a'', Arr [Str (js ''x''), Str (js ''y'')]), (js ''u'', Undefined),
         (js ''b'', Num (js ''1''))] (Inr (js ''[object Object]''))"
  let ?q = "js ''a=true&a=true&b=true''"
  have p: "parse (Str ?t) None None (Some ?fn) 0 = (Inr ?obj, 2)"
    by (simp add: parse_eval)
  have q: "stringify ?m None None (Some ?fn') 0 = (Inr ?q, 3)"
    by (simp add: stringify_eval)
  have t: "?t \<noteq> []" by (simp add: js_def)
  have m: "isObject ?m" by simp
  from callback_once_per_occurrence [of ?t None None ?fn 0 ?obj 2 ?m None None ?fn' 0 ?q 3] p q t m
  have "snd (invoke_each ?fn
         (parse_occurrences (js ''='') (str_split (replace_first ?t) (js ''&''))) 0) = 2"
    and "snd (invoke_each ?fn' (stringify_occurrences ?m) 0) = 3"
    by (auto simp: or_default_def)
  with p q show ?thesis by simp
qed

section \<open>Errors of \<open>parse\<close>\<close>






section \<open>Percent-encoding symmetry\<close>

text \<open>
  C7. \<open>stringify\<close> writes keys and values with \<open>encodeURIComponent\<close>, which leaves the
  reserved characters \<open>! ' ( ) *\<close> unescaped, and the decoding of \<open>parse\<close> reverses it:
  whatever \<open>encodeURIComponent\<close> returns for a string, \<open>decodeURIComponent\<close> maps back to
  that string; \<open>stringify({test: "a &* b"})\<close> is \<open>"test=a%20%26*%20b"\<close> and
  \<open>parse("test=a%20%26*%20b")\<close> is \<open>{test: "a &* b"}\<close>.
\<close>

theorem decoding_reverses_encoding:
  "(encodeURIComponent (Str t) = Inr e \<longrightarrow> decodeURIComponent e = Inr t)
   \<and> encodeURIComponent (Str [0x21, 0x27, 0x28, 0x29, 0x2A]) = Inr [0x21, 0x27, 0x28, 0x29, 0x2A]
   \<and> stringify (Obj [(js ''test'', Str (js ''a &* b''))] r) None None None s =
       (Inr (js ''test=a%20%26*%20b''), s)
   \<and> parse (Str (js ''test=a%20%26*%20b'')) None None None s =
       (Inr \<lparr>own = [(js ''test'', Str (js ''a &* b''))], proto = None\<rparr>, s)"
proof (intro conjI impI)
  assume "encodeURIComponent (Str t) = Inr e"
  then show "decodeURIComponent e = Inr t"
    by (simp add: encodeURIComponent_def decodeURIComponent_def Decode_Encode)
next
  show "encodeURIComponent (Str [0x21, 0x27, 0x28, 0x29, 0x2A]) = Inr [0x21, 0x27, 0x28, 0x29, 0x2A]"
    by (simp add: encode_eval)
  show "stringify (Obj [(js ''test'', Str (js ''a &* b''))] r) None None None s =
       (Inr (js ''test=a%20%26*%20b''), s)"
    by (simp add: stringify_eval)
  show "parse (Str (js ''test=a%20%26*%20b'')) None None None s =
       (Inr \<lparr>own = [(js ''test'', Str (js ''a &* b''))], proto = None\<rparr>, s)"
    by (simp add: parse_eval)
qed

theorem decoding_reverses_encoding_witness:
  "encodeURIComponent (Str [0x61, 0x20, 0xE9, 0x2713, 0xD83D, 0xDE00]) =
     Inr (js ''a%20%C3%A9%E2%9C%93%F0%9F%98%80'')
   \<and> decodeURIComponent (js ''a%20%C3%A9%E2%9C%93%F0%9F%98%80'') =
     Inr [0x61, 0x20, 0xE9, 0x2713, 0xD83D, 0xDE00]"
proof -
  have "encodeURIComponent (Str [0x61, 0x20, 0xE9, 0x2713, 0xD83D, 0xDE00]) =
     Inr (js ''a%20%C3%A9%E2%9C%93%F0%9F%98%80'')"
    by (simp add: encode_eval)
  with decoding_reverses_encoding [of "[0x61, 0x20, 0xE9, 0x2713, 0xD83D, 0xDE00]"
      "js ''a%20%C3%A9%E2%9C%93%F0%9F%98%80''" "Inr []" "()"]
  show ?thesis by simp
qed

section \<open>Storing a value under a key\<close>

text \<open>
  Array indices are written with digits, so \<open>__proto__\<close> is none; the inherited
  properties are functions, so none is an array or \<open>undefined\<close>.
\<close>

lemma dec_digits: "dec n \<noteq> [] \<and> (\<forall>c \<in> set (dec n). 0x30 \<le> unat c \<and> unat c \<le> 0x39)"
proof (induction n rule: dec.induct)
  case (1 n)
  have d: "0x30 \<le> unat (of_nat (0x30 + k) :: 16 word) \<and> unat (of_nat (0x30 + k) :: 16 word) \<le> 0x39"
    if "k < 10" for k
    using that unat_of_nat16 [of "0x30 + k"] by simp
  show ?case
  proof (cases "n < 10")
    case True
    then show ?thesis using d [of n] by (subst dec.simps, subst (2) dec.simps) simp
  next
    case False
    then show ?thesis
      using "1.IH" d [of "n mod 10"] by (subst dec.simps, subst (2) dec.simps) simp
  qed
qed

lemma dec_not_proto: "dec n \<noteq> js ''__proto__''"
proof
  assume a: "dec n = js ''__proto__''"
  have "(0x5F :: 16 word) \<in> set (js ''__proto__'')" by (simp add: js_def)
  with a dec_digits [of n] have "0x30 \<le> unat (0x5F :: 16 word) \<and> unat (0x5F :: 16 word) \<le> 0x39"
    by metis
  then show False by simp
qed

lemma array_index_proto [simp]: "array_index arr (js ''__proto__'') = None"
  by (simp add: array_index_def find_None_iff dec_not_proto)


lemma array_index_length:
  "length arr' = length arr \<Longrightarrow> array_index arr' key = array_index arr key"
  by (simp add: array_index_def)

lemma native_not_array [simp]: "\<not> isArray (native n)" "native n \<noteq> Undefined"
  by (simp_all add: native_def)



lemma array_prototype_proto [simp]: "map_of array_prototype (js ''__proto__'') = None"
  by (simp add: array_prototype_def js_def)

lemma proto_not_length [simp]: "js ''__proto__'' \<noteq> js ''length''"
  by (simp add: js_def)

lemma inherited_proto:
  "inherited p (js ''__proto__'') = (case p of None \<Rightarrow> Object_prototype | Some arr \<Rightarrow> Arr arr)"
  by (simp add: inherited_def from_Object_prototype_def split: option.splits)


lemma inherited_proto_defined: "inherited p (js ''__proto__'') \<noteq> Undefined"
  by (simp add: inherited_proto Object_prototype_def split: option.splits)

lemma Object_prototype_not_array [simp]: "\<not> isArray Object_prototype"
  by (simp add: Object_prototype_def)



lemma Get_update_own [simp]:
  "Get (obj\<lparr>own := AList.update key x (own obj)\<rparr>) key = x"
  by (simp add: Get_def update_conv')






text \<open>
  C2. Lines 86 to 92 test the presence of a key by reading \<open>obj[key]\<close>, and the read
  follows the prototype chain (the three lemmas above say what the store does for a
  key that reads as \<open>undefined\<close>, as a value that is no array, as an array). A key that
  the mapping does not hold yet, but that every object inherits from
  \<open>Object.prototype\<close>, is therefore not stored as a scalar: its first value is appended
  to a sequence that starts with the inherited function.
\<close>

theorem inherited_key_is_not_stored_as_scalar:
  "parse (Str (js ''toString=1'')) None None None s =
     (Inr \<lparr>own = [(js ''toString'', Arr [native ''toString'', Str (js ''1'')])], proto = None\<rparr>, s)"
  by (simp add: parse_eval)

section \<open>Stripping the part before the query\<close>

text \<open>
  Without a \<open>?\<close> the string is used as it is. A first \<open>?\<close> with no line terminator
  before it is removed with all that precedes it. After a line terminator the match
  can only start behind it: what stands before stays.
\<close>

lemma match_here_no_question: "0x3F \<notin> set s \<Longrightarrow> match_here s = None"
  by (induction s) auto

lemma replace_first_no_question: "0x3F \<notin> set s \<Longrightarrow> replace_first s = s"
  by (induction s) (auto simp: match_here_no_question)

lemma match_here_prefix:
  "0x3F \<notin> set p \<Longrightarrow> \<forall>c \<in> set p. \<not> line_terminator c \<Longrightarrow> match_here (p @ 0x3F # r) = Some r"
  by (induction p) auto

lemma replace_first_url:
  "0x3F \<notin> set p \<Longrightarrow> \<forall>c \<in> set p. \<not> line_terminator c \<Longrightarrow> replace_first (p @ 0x3F # r) = r"
proof (cases p)
  case Nil
  then show ?thesis by simp
next
  case (Cons a p')
  assume "0x3F \<notin> set p" "\<forall>c \<in> set p. \<not> line_terminator c"
  then have "match_here (p @ 0x3F # r) = Some r" by (rule match_here_prefix)
  then show ?thesis using Cons by simp
qed

lemma match_here_terminator:
  "0x3F \<notin> set p \<Longrightarrow> line_terminator c \<Longrightarrow> match_here (p @ c # q) = None"
  by (induction p) (auto simp: line_terminator_def)

lemma replace_first_after_terminator:
  "0x3F \<notin> set p \<Longrightarrow> line_terminator c \<Longrightarrow> replace_first (p @ c # q) = p @ c # replace_first q"
proof (induction p)
  case Nil
  then show ?case by (auto simp: line_terminator_def)
next
  case (Cons a p)
  then have "match_here ((a # p) @ c # q) = None"
    by (intro match_here_terminator) auto
  with Cons show ?case by simp
qed

text \<open>
  C6. The prefix that line 67 removes ends at the first \<open>?\<close>, but it starts after the
  last line terminator before that \<open>?\<close>, since \<open>.\<close> matches no line terminator: the
  text up to the line terminator is kept and becomes part of the first key.
\<close>

theorem question_mark_prefix_after_line_terminator:
  "replace_first (js ''a'' @ [0x0A] @ js ''b?c=1'') = js ''a'' @ [0x0A] @ js ''c=1''
   \<and> parse (Str (js ''a'' @ [0x0A] @ js ''b?c=1'')) None None None s =
       (Inr \<lparr>own = [(js ''a'' @ [0x0A] @ js ''c'', Str (js ''1''))], proto = None\<rparr>, s)"
  by (simp add: parse_eval)

section \<open>Errors of \<open>stringify\<close>\<close>

lemma unreserved_not_surrogate: "uriUnreserved c \<Longrightarrow> \<not> is_lead c \<and> \<not> is_trail c"
  by (auto simp: uriUnreserved_def is_lead_def is_trail_def Let_def)

lemma Encode_well_formed: "well_formed s \<Longrightarrow> \<exists>e. Encode s = Inr e"
proof (induction s rule: Encode.induct)
  case 1
  then show ?case by simp
next
  case (2 c cs)
  show ?case
  proof (cases "uriUnreserved c")
    case True
    then have "well_formed cs" using "2.prems" unreserved_not_surrogate [of c] by simp
    with "2.IH"(1) True show ?thesis by auto
  next
    case unres: False
    show ?thesis
    proof (cases "is_lead c")
      case True
      with "2.prems" obtain d ds where d: "cs = d # ds" "is_trail d" "well_formed ds"
        by (auto split: list.splits)
      with "2.IH"(2) unres True show ?thesis by auto
    next
      case False
      with "2.prems" have "\<not> is_trail c" "well_formed cs" by simp_all
      with "2.IH"(3) unres False show ?thesis by auto
    qed
  qed
qed

lemma Encode_error: "Encode s = Inl e \<Longrightarrow> e = URIError"
  by (induction s arbitrary: e rule: Encode.induct) (auto split: if_splits sum.splits list.splits)










section \<open>The groups that contribute to the result\<close>
















section \<open>The round trip\<close>

lemma Encode_encoded: "well_formed t \<Longrightarrow> Encode t = Inr (encoded t)"
  using Encode_well_formed [of t] by (auto simp: encoded_def)

lemma Decode_encoded: "well_formed t \<Longrightarrow> Decode (encoded t) = Inr t"
  by (simp add: Decode_Encode Encode_encoded)

lemma utf8_octets_less: "cp < 0x110000 \<Longrightarrow> \<forall>b \<in> set (utf8_octets cp). b < 256"
proof -
  assume cp: "cp < 0x110000"
  have "cp div 0x40000 < 8" using cp by (simp add: div_less_iff_less_mult)
  moreover have "cp < 0x10000 \<longrightarrow> cp div 0x1000 < 0x10" by (simp add: div_less_iff_less_mult)
  moreover have "cp < 0x800 \<longrightarrow> cp div 0x40 < 0x20" by (simp add: div_less_iff_less_mult)
  ultimately show ?thesis by (auto simp: utf8_octets_def mod_64_less_128)
qed

lemma hex_digit_unreserved: "d < 16 \<Longrightarrow> uriUnreserved (hex_digit d)"
  by (simp add: uriUnreserved_def unat_hex_digit Let_def)

lemma escape_octets_chars:
  "\<forall>b \<in> set bs. b < 256 \<Longrightarrow> \<forall>c \<in> set (escape_octets bs). uriUnreserved c \<or> c = 0x25"
proof (induction bs)
  case Nil
  then show ?case by (simp add: escape_octets_def)
next
  case (Cons b bs)
  then have "b div 16 < 16" "b mod 16 < 16" by auto
  then have "uriUnreserved (hex_digit (b div 16))" "uriUnreserved (hex_digit (b mod 16))"
    by (simp_all add: hex_digit_unreserved)
  with Cons show ?case by (simp add: escape_octets_def escape_octet_def)
qed

lemma Encode_chars: "Encode t = Inr e \<Longrightarrow> \<forall>c \<in> set e. uriUnreserved c \<or> c = 0x25"
proof (induction t arbitrary: e rule: Encode.induct)
  case 1
  then show ?case by simp
next
  case (2 c cs)
  show ?case
  proof (cases "uriUnreserved c")
    case True
    with "2.prems" obtain r where r: "Encode cs = Inr r" "e = c # r"
      by (auto split: sum.splits)
    with "2.IH"(1) True show ?thesis by auto
  next
    case unres: False
    show ?thesis
    proof (cases "is_lead c")
      case True
      with unres "2.prems" obtain d ds r where r: "cs = d # ds" "is_trail d" "Encode ds = Inr r"
          "e = escape_octets (utf8_octets (pair_code_point c d)) @ r"
        by (auto split: sum.splits list.splits if_splits)
      have "pair_code_point c d < 0x110000"
        using scalar_value_pair [OF True r(2)] by (simp add: scalar_value_def)
      from escape_octets_chars [OF utf8_octets_less [OF this]] "2.IH"(2) [OF unres True r(1) r(2) r(3)]
      show ?thesis by (auto simp: r(4))
    next
      case False
      with unres "2.prems" obtain r where r: "\<not> is_trail c" "Encode cs = Inr r"
          "e = escape_octets (utf8_octets (unat c)) @ r"
        by (auto split: sum.splits if_splits)
      have "unat c < 0x110000" using unat_less_65536 [of c] by simp
      from escape_octets_chars [OF utf8_octets_less [OF this]] "2.IH"(3) [OF unres False r(1) r(2)]
      show ?thesis by (auto simp: r(3))
    qed
  qed
qed

lemma encoded_chars:
  assumes "well_formed t"
  shows "0x3D \<notin> set (encoded t)" "0x26 \<notin> set (encoded t)" "0x3F \<notin> set (encoded t)"
proof -
  have a: "\<forall>c \<in> set (encoded t). uriUnreserved c \<or> c = 0x25"
    using Encode_chars [OF Encode_encoded [OF assms]] .
  have "\<not> (uriUnreserved 0x3D \<or> (0x3D :: 16 word) = 0x25)"
    "\<not> (uriUnreserved 0x26 \<or> (0x26 :: 16 word) = 0x25)"
    "\<not> (uriUnreserved 0x3F \<or> (0x3F :: 16 word) = 0x25)"
    by (simp_all add: uriUnreserved_def)
  with a show "0x3D \<notin> set (encoded t)" "0x26 \<notin> set (encoded t)" "0x3F \<notin> set (encoded t)"
    by blast+
qed


lemma split_from_none: "a \<notin> set x \<Longrightarrow> split_from [a] cur x = [cur @ x]"
  by (induction x arbitrary: cur) auto

lemma split_from_first:
  "a \<notin> set x \<Longrightarrow> split_from [a] cur (x @ a # y) = (cur @ x) # split_from [a] [] y"
  by (induction x arbitrary: cur) auto

lemma str_split_pair:
  "a \<notin> set x \<Longrightarrow> a \<notin> set y \<Longrightarrow> str_split (x @ [a] @ y) [a] = [x, y]"
  by (simp add: str_split_def split_from_first split_from_none)

lemma str_split_join:
  "ps \<noteq> [] \<Longrightarrow> \<forall>p \<in> set ps. a \<notin> set p \<Longrightarrow> str_split (join [a] ps) [a] = ps"
proof (induction "[a]" ps rule: join.induct)
  case 1
  then show ?case by simp
next
  case (2 x)
  then show ?case by (simp add: str_split_def split_from_none)
next
  case (3 x y ys)
  then have "split_from [a] [] (join [a] (y # ys)) = y # ys"
    by (simp add: str_split_def)
  with 3 show ?case by (simp add: str_split_def split_from_first)
qed

lemma set_join: "set (join sep ps) \<subseteq> set sep \<union> \<Union> (set ` set ps)"
  by (induction sep ps rule: join.induct) auto

lemma join_empty_iff: "join sep ps = [] \<Longrightarrow> ps = [] \<or> [] \<in> set ps"
  by (induction sep ps rule: join.induct) auto

lemma parse_groups_append:
  "parse_groups eq fn (xs @ ys) obj s =
     (case parse_groups eq fn xs obj s of
        (Inl e, s') \<Rightarrow> (Inl e, s')
      | (Inr obj', s') \<Rightarrow> parse_groups eq fn ys obj' s')"
proof (induction xs arbitrary: obj s)
  case Nil
  then show ?case by simp
next
  case (Cons g xs)
  show ?case
  proof (cases "retained eq g")
    case True
    then obtain k v where kv: "str_split g eq = [k, v]"
      by (auto simp: retained_def length_2_iff)
    show ?thesis
      using Cons.IH
      by (simp add: parse_groups_retained [OF kv] split: sum.splits prod.splits)
  next
    case False
    then show ?thesis using Cons.IH by (simp add: parse_groups_skip)
  qed
qed

lemma piece_step:
  assumes "well_formed key" "well_formed t"
  shows "parse_groups (js ''='') (\<lambda>key value s. (Str value, s)) (piece key t # gs) obj s =
     parse_groups (js ''='') (\<lambda>key value s. (Str value, s)) gs (store obj key (Str t)) s"
proof -
  have "str_split (piece key t) (js ''='') = [encoded key, encoded t]"
    using str_split_pair [of "0x3D" "encoded key" "encoded t"] encoded_chars(1) assms
    by (simp add: piece_def js_def)
  from parse_groups_retained [OF this, of "\<lambda>key value s. (Str value, s)" gs obj s]
  show ?thesis
    using assms by (simp add: decodeURIComponent_def Decode_encoded)
qed

lemma piece_chars:
  assumes "well_formed key" "well_formed t"
  shows "0x26 \<notin> set (piece key t)" "0x3F \<notin> set (piece key t)" "piece key t \<noteq> []"
  using encoded_chars [OF assms(1)] encoded_chars [OF assms(2)]
  by (simp_all add: piece_def js_def)

lemma update_append_new:
  "key \<notin> fst ` set al \<Longrightarrow> AList.update key v al = al @ [(key, v)]"
  by (induction al) auto

lemma update_append_last:
  "key \<notin> fst ` set al \<Longrightarrow> AList.update key v (al @ [(key, w)]) = al @ [(key, v)]"
  by (induction al) auto

lemma map_of_append_last:
  "key \<notin> fst ` set al \<Longrightarrow> map_of (al @ [(key, w)]) key = Some w"
  by (induction al) auto

lemma store_new:
  assumes "key \<notin> fst ` set al" "inherited None key = Undefined"
  shows "store \<lparr>own = al, proto = None\<rparr> key v = \<lparr>own = al @ [(key, v)], proto = None\<rparr>"
proof -
  have n: "map_of al key = None" using assms(1) by (simp add: map_of_eq_None_iff)
  then have g: "Get \<lparr>own = al, proto = None\<rparr> key = Undefined"
    using assms(2) by (simp add: Get_def)
  have "key \<noteq> js ''__proto__''"
    using assms(2) inherited_proto_defined [of None] by auto
  then show ?thesis
    using g assms(1) by (simp add: store_def Put_def update_append_new)
qed

lemma store_second:
  assumes "key \<notin> fst ` set al"
  shows "store \<lparr>own = al @ [(key, Str t)], proto = None\<rparr> key v =
     \<lparr>own = al @ [(key, Arr [Str t, v])], proto = None\<rparr>"
proof -
  have m: "map_of (al @ [(key, Str t)]) key = Some (Str t)"
    using assms by (rule map_of_append_last)
  then have g: "Get \<lparr>own = al @ [(key, Str t)], proto = None\<rparr> key = Str t"
    by (simp add: Get_def)
  have "map_of (al @ [(key, Arr [Str t])]) key = Some (Arr [Str t])"
    using assms by (rule map_of_append_last)
  then show ?thesis
    using g m assms by (simp add: store_def Put_def push_def update_append_last)
qed

lemma store_more:
  assumes "key \<notin> fst ` set al"
  shows "store \<lparr>own = al @ [(key, Arr xs)], proto = None\<rparr> key v =
     \<lparr>own = al @ [(key, Arr (xs @ [v]))], proto = None\<rparr>"
proof -
  have m: "map_of (al @ [(key, Arr xs)]) key = Some (Arr xs)"
    using assms by (rule map_of_append_last)
  then have g: "Get \<lparr>own = al @ [(key, Arr xs)], proto = None\<rparr> key = Arr xs"
    by (simp add: Get_def)
  show ?thesis
    using g m assms by (simp add: store_def push_def update_append_last)
qed


lemma is_string_Str: "is_string x \<Longrightarrow> x = Str (text_of x) \<and> well_formed (text_of x)"
  by (cases x) simp_all

lemma more_pieces:
  assumes "key \<notin> fst ` set al" "well_formed key" "list_all is_string ys"
  shows "parse_groups (js ''='') (\<lambda>key value s. (Str value, s))
           (map (piece key) (map text_of ys) @ gs) \<lparr>own = al @ [(key, Arr xs)], proto = None\<rparr> s =
         parse_groups (js ''='') (\<lambda>key value s. (Str value, s)) gs
           \<lparr>own = al @ [(key, Arr (xs @ ys))], proto = None\<rparr> s"
  using assms(3)
proof (induction ys arbitrary: xs)
  case Nil
  then show ?case by simp
next
  case (Cons y ys)
  then have y: "y = Str (text_of y)" "well_formed (text_of y)" and ys: "list_all is_string ys"
    using is_string_Str [of y] by simp_all
  have "store \<lparr>own = al @ [(key, Arr xs)], proto = None\<rparr> key (Str (text_of y)) =
      \<lparr>own = al @ [(key, Arr (xs @ [y]))], proto = None\<rparr>"
    using store_more [OF assms(1), of xs "Str (text_of y)"] y(1) by simp
  then show ?case
    using piece_step [OF assms(2) y(2), of "map (piece key) (map text_of ys) @ gs"
        "\<lparr>own = al @ [(key, Arr xs)], proto = None\<rparr>" s]
      Cons.IH [OF ys, of "xs @ [y]"] by simp
qed

lemma key_pieces:
  assumes "key \<notin> fst ` set al" "inherited None key = Undefined" "well_formed key"
    "string_or_strings v"
  shows "parse_groups (js ''='') (\<lambda>key value s. (Str value, s)) (pieces_of (key, v) @ gs)
           \<lparr>own = al, proto = None\<rparr> s =
         parse_groups (js ''='') (\<lambda>key value s. (Str value, s)) gs
           \<lparr>own = al @ [(key, v)], proto = None\<rparr> s"
proof (cases v)
  case (Str t)
  with assms(4) have t: "well_formed t" by simp
  show ?thesis
    using Str piece_step [OF assms(3) t, of gs "\<lparr>own = al, proto = None\<rparr>" s]
      store_new [OF assms(1,2), of "Str t"]
    by (simp add: pieces_of_def)
next
  case (Arr xs)
  with assms(4) obtain x1 x2 ys where xs: "xs = x1 # x2 # ys"
    by (cases xs; cases "tl xs") auto
  with Arr assms(4) have s: "is_string x1" "is_string x2" "list_all is_string ys" by simp_all
  note x1 = is_string_Str [OF s(1)] and x2 = is_string_Str [OF s(2)]
  have 1: "store \<lparr>own = al, proto = None\<rparr> key (Str (text_of x1)) =
      \<lparr>own = al @ [(key, x1)], proto = None\<rparr>"
    using store_new [OF assms(1,2), of "Str (text_of x1)"] x1 by simp
  have 2: "store \<lparr>own = al @ [(key, x1)], proto = None\<rparr> key (Str (text_of x2)) =
      \<lparr>own = al @ [(key, Arr [x1, x2])], proto = None\<rparr>"
    using store_second [OF assms(1), of "text_of x1" "Str (text_of x2)"] x1 x2 by simp
  have "pieces_of (key, v) = piece key (text_of x1) # piece key (text_of x2) #
      map (piece key) (map text_of ys)"
    by (simp add: pieces_of_def Arr xs)
  then show ?thesis
    using piece_step [OF assms(3) conjunct2 [OF x1],
        of "piece key (text_of x2) # map (piece key) (map text_of ys) @ gs"
        "\<lparr>own = al, proto = None\<rparr>" s]
      piece_step [OF assms(3) conjunct2 [OF x2], of "map (piece key) (map text_of ys) @ gs"
        "\<lparr>own = al @ [(key, x1)], proto = None\<rparr>" s]
      1 2 more_pieces [OF assms(1,3) s(3), of gs "[x1, x2]" s]
    by (simp add: Arr xs)
qed (use assms(4) in simp_all)

lemma all_pieces:
  assumes "distinct (map fst m)" "fst ` set al \<inter> fst ` set m = {}"
    "\<forall>kv \<in> set m. well_formed (fst kv) \<and> inherited None (fst kv) = Undefined
        \<and> string_or_strings (snd kv)"
  shows "parse_groups (js ''='') (\<lambda>key value s. (Str value, s)) (concat (map pieces_of m))
           \<lparr>own = al, proto = None\<rparr> s = (Inr \<lparr>own = al @ m, proto = None\<rparr>, s)"
  using assms
proof (induction m arbitrary: al)
  case Nil
  then show ?case by simp
next
  case (Cons kv m)
  obtain key v where kv: "kv = (key, v)" by (cases kv)
  from Cons.prems kv have k: "key \<notin> fst ` set al" "inherited None key = Undefined"
      "well_formed key" "string_or_strings v"
    by auto
  have "distinct (map fst m)" "fst ` set (al @ [(key, v)]) \<inter> fst ` set m = {}"
    using Cons.prems kv by auto
  from Cons.IH [OF this] Cons.prems(3)
  have "parse_groups (js ''='') (\<lambda>key value s. (Str value, s)) (concat (map pieces_of m))
           \<lparr>own = al @ [(key, v)], proto = None\<rparr> s = (Inr \<lparr>own = al @ kv # m, proto = None\<rparr>, s)"
    by (simp add: kv)
  then show ?case
    using key_pieces [OF k, of "concat (map pieces_of m)" s] by (simp add: kv)
qed

lemma sequence_map_all:
  "\<forall>x \<in> set xs. f x = Inr (g x) \<Longrightarrow> sequence (map f xs) = Inr (map g xs)"
  by (induction xs) simp_all

lemma spec_pairs_pieces:
  assumes "well_formed key" "string_or_strings v"
  shows "spec_pairs (js ''='') key v = Inr (pieces_of (key, v))"
proof -
  have p: "spec_pair (js ''='') (encoded key) x = Inr (piece key (text_of x))" if "is_string x" for x
    using is_string_Str [OF that] Encode_encoded [of "text_of x"]
    by (cases x) (simp_all add: spec_pair_def encodeURIComponent_def piece_def)
  show ?thesis
  proof (cases v)
    case (Str t)
    with assms show ?thesis
      using p [of v] by (simp add: spec_pairs_def Encode_encoded pieces_of_def)
  next
    case (Arr xs)
    with assms(2) have "list_all is_string xs" by simp
    then have "\<forall>x \<in> set xs. spec_pair (js ''='') (encoded key) x = Inr (piece key (text_of x))"
      using p by (simp add: list_all_iff)
    from sequence_map_all [OF this] show ?thesis
      using assms(1) Arr
      by (simp add: spec_pairs_def Encode_encoded pieces_of_def)
  qed (use assms(2) in simp_all)
qed

lemma property_distinct:
  "distinct (map fst m) \<Longrightarrow> (key, v) \<in> set m \<Longrightarrow> property (Obj m r) key = v"
  by (simp add: property_def)

lemma stringify_pieces:
  assumes "distinct (map fst m)"
    "\<forall>kv \<in> set m. well_formed (fst kv) \<and> string_or_strings (snd kv)"
  shows "stringify (Obj m r) None None None s = (Inr (join (js ''&'') (concat (map pieces_of m))), s)"
proof -
  have "\<forall>kv \<in> set m. spec_pairs (js ''='') (fst kv) (property (Obj m r) (fst kv)) =
      Inr (pieces_of kv)"
    using assms by (auto simp: property_distinct spec_pairs_pieces)
  from sequence_map_all [OF this]
  have "sequence (map (\<lambda>key. spec_pairs (js ''='') key (property (Obj m r) key)) (map fst m)) =
      Inr (map pieces_of m)"
    by (simp add: comp_def)
  then show ?thesis
    by (simp add: stringify_def stringify_keys_identity or_default_def Object_keys_def)
qed


lemma strings_of_well_formed:
  "string_or_strings v \<Longrightarrow> strings_of v \<noteq> [] \<and> (\<forall>t \<in> set (strings_of v). well_formed t)"
proof (cases v)
  case (Arr xs)
  assume "string_or_strings v"
  with Arr have "xs \<noteq> []" "\<forall>x \<in> set xs. is_string x" by (auto simp: list_all_iff)
  then show ?thesis using Arr is_string_Str by auto
qed simp_all

lemma pieces_of_chars:
  assumes "well_formed (fst kv)" "string_or_strings (snd kv)"
  shows "pieces_of kv \<noteq> []"
    and "\<forall>p \<in> set (pieces_of kv). 0x26 \<notin> set p \<and> 0x3F \<notin> set p \<and> p \<noteq> []"
  using strings_of_well_formed [OF assms(2)] piece_chars [OF assms(1)]
  by (auto simp: pieces_of_def)

text \<open>
  C1, as the claim states it, fails: a sequence with one element is written as one
  group and read back as a scalar.
\<close>

theorem single_element_sequence_not_preserved:
  "stringify (Obj [(js ''a'', Arr [Str (js ''x'')])] (Inr (js ''[object Object]''))) None None None () =
     (Inr (js ''a=x''), ())
   \<and> parse (Str (js ''a=x'')) None None None () =
     (Inr \<lparr>own = [(js ''a'', Str (js ''x''))], proto = None\<rparr>, ())
   \<and> [(js ''a'', Str (js ''x''))] \<noteq> [(js ''a'', Arr [Str (js ''x'')])]"
  by (simp add: stringify_eval parse_eval)

text \<open>
  C1, amended. For a mapping with distinct keys, each a well-formed string that names
  no property inherited from \<open>Object.prototype\<close>, and with values that are well-formed
  strings or sequences of at least two well-formed strings, \<open>stringify\<close> returns a
  string and \<open>parse\<close> of that string returns the mapping: the same keys in the same
  order, the same scalars, the same sequences (default separators and callbacks).
\<close>

theorem parse_inverts_stringify:
  "distinct (map fst m)
   \<and> (\<forall>kv \<in> set m. well_formed (fst kv) \<and> inherited None (fst kv) = Undefined
         \<and> string_or_strings (snd kv)) \<longrightarrow>
   (\<exists>q. stringify (Obj m r) None None None s = (Inr q, s)
      \<and> parse (Str q) None None None s = (Inr \<lparr>own = m, proto = None\<rparr>, s))"
proof
  let ?P = "concat (map pieces_of m)"
  let ?q = "join (js ''&'') ?P"
  let ?fn = "\<lambda>(key :: jsstring) (value :: jsstring) (s :: 'a). (Str value, s)"
  assume a: "distinct (map fst m)
   \<and> (\<forall>kv \<in> set m. well_formed (fst kv) \<and> inherited None (fst kv) = Undefined
         \<and> string_or_strings (snd kv))"
  then have d: "distinct (map fst m)"
    and g: "\<forall>kv \<in> set m. well_formed (fst kv) \<and> inherited None (fst kv) = Undefined
         \<and> string_or_strings (snd kv)"
    by blast+
  from g have g': "\<forall>kv \<in> set m. well_formed (fst kv) \<and> string_or_strings (snd kv)" by blast
  have st: "stringify (Obj m r) None None None s = (Inr ?q, s)"
    using stringify_pieces [OF d g'] .
  have "parse (Str ?q) None None None s = (Inr \<lparr>own = m, proto = None\<rparr>, s)"
  proof (cases m)
    case Nil
    then show ?thesis by (simp add: parse_def empty_object_def)
  next
    case (Cons kv m')
    have ps: "\<forall>p \<in> set ?P. 0x26 \<notin> set p \<and> 0x3F \<notin> set p \<and> p \<noteq> []"
      using g' pieces_of_chars(2) by fastforce
    have "pieces_of kv \<noteq> []" using g' Cons pieces_of_chars(1) [of kv] by simp
    then have ne: "?P \<noteq> []" using Cons by simp
    have q: "?q \<noteq> []" using join_empty_iff [of "js ''&''" ?P] ne ps by blast
    have "0x3F \<notin> set ?q"
      using set_join [of "js ''&''" ?P] ps by (auto simp: js_def)
    then have r: "replace_first ?q = ?q" by (rule replace_first_no_question)
    have sp: "str_split ?q (js ''&'') = ?P"
      using str_split_join [OF ne, of "0x26"] ps by (simp add: js_def)
    have "parse_groups (js ''='') ?fn ?P \<lparr>own = [], proto = None\<rparr> s =
        (Inr \<lparr>own = [] @ m, proto = None\<rparr>, s)"
      using all_pieces [OF d _ g, of "[]" s] by simp
    then show ?thesis
      using q r sp by (simp add: parse_def or_default_def empty_object_def)
  qed
  with st show "\<exists>q. stringify (Obj m r) None None None s = (Inr q, s)
      \<and> parse (Str q) None None None s = (Inr \<lparr>own = m, proto = None\<rparr>, s)"
    by blast
qed

theorem parse_inverts_stringify_witness:
  "\<exists>q. stringify (Obj [(js ''a'', Str (js ''1 & 2'')), (js ''b='', Arr [Str (js ''s''), Str [0xD83D, 0xDE00]])]
            (Inr (js ''[object Object]''))) None None None () = (Inr q, ())
      \<and> parse (Str q) None None None () =
          (Inr \<lparr>own = [(js ''a'', Str (js ''1 & 2'')), (js ''b='', Arr [Str (js ''s''), Str [0xD83D, 0xDE00]])],
                proto = None\<rparr>, ())"
proof -
  let ?m = "[(js ''a'', Str (js ''1 & 2'')), (js ''b='', Arr [Str (js ''s''), Str [0xD83D, 0xDE00]])]"
  have "distinct (map fst ?m)
   \<and> (\<forall>kv \<in> set ?m. well_formed (fst kv) \<and> inherited None (fst kv) = Undefined
         \<and> string_or_strings (snd kv))"
    by (simp add: js_def is_lead_def is_trail_def inherited_def from_Object_prototype_def
        object_prototype_def)
  with parse_inverts_stringify [of ?m "Inr (js ''[object Object]'')" "()"]
  show ?thesis by blast
qed

end
